theory Spec2Isabelle
  imports Main "HOL-Library.Word" "HOL-Library.List_Lexorder"
begin

section \<open>Byte strings, errors and Go integers\<close>

text \<open>
  Keys and values are Go byte slices. A nil slice and an empty slice are both the empty
  list: \<^verbatim>\<open>bytes.Compare\<close> does not tell them apart. Go's \<^verbatim>\<open>int\<close> is the 64-bit
  two's-complement integer of the platforms the node runs on, so \<^verbatim>\<open>m.limit--\<close> wraps;
  \<^verbatim>\<open>uint64\<close> is the step scalar. An \<^verbatim>\<open>error\<close> value is \<open>Some e\<close>, and nil is \<open>None\<close>.
\<close>

type_synonym byte = "8 word"
type_synonym bytes = "byte list"
type_synonym uint64 = "64 word"
type_synonym go_int = "64 word"

datatype error = Error string

type_synonym kvres = "bytes \<times> bytes \<times> error option"
type_synonym kvsres = "bytes \<times> bytes \<times> uint64 \<times> error option"

text \<open>\<^verbatim>\<open>bytes.Compare\<close>: lexicographic comparison of unsigned bytes, giving -1, 0 or 1.\<close>

fun bytes_Compare :: "bytes \<Rightarrow> bytes \<Rightarrow> int" where
  "bytes_Compare [] [] = 0"
| "bytes_Compare [] (b # bs) = - 1"
| "bytes_Compare (a # as) [] = 1"
| "bytes_Compare (a # as) (b # bs) =
     (if a < b then - 1 else if b < a then 1 else bytes_Compare as bs)"

section \<open>Base streams\<close>

text \<open>
  Modelled from the spec: the base streams are produced by the storage engine, which is
  outside iter\_exact.go; section 4.1 of the specification gives their contract. A base stream
  is a script of the results its \<^verbatim>\<open>Next\<close> will give, an element or an error. An error
  stays at the head of the script (it is latched), and \<^verbatim>\<open>Next\<close> on an exhausted stream,
  which the contract leaves to the implementation, returns an error of its own. The stream
  counts the calls it receives, so that a theorem can say that a composite did or did not
  call it, and \<open>closer\<close> tells whether its dynamic type has a \<^verbatim>\<open>Close\<close> method.
\<close>

record 'a source =
  script :: "(error + 'a) list"
  closer :: bool
  hasNextCalls :: nat
  nextCalls :: nat
  closeCalls :: nat

definition src_HasNext :: "'a source \<Rightarrow> bool \<times> 'a source" where
  "src_HasNext s = (script s \<noteq> [], s\<lparr>hasNextCalls := Suc (hasNextCalls s)\<rparr>)"

definition src_Next :: "'a \<Rightarrow> 'a source \<Rightarrow> ('a \<times> error option) \<times> 'a source" where
  "src_Next zero s =
     (case script s of
        [] \<Rightarrow> ((zero, Some (Error ''exhausted'')), s\<lparr>nextCalls := Suc (nextCalls s)\<rparr>)
      | Inl e # rest \<Rightarrow> ((zero, Some e), s\<lparr>nextCalls := Suc (nextCalls s)\<rparr>)
      | Inr a # rest \<Rightarrow> ((a, None), s\<lparr>script := rest, nextCalls := Suc (nextCalls s)\<rparr>))"

definition src_Close :: "'a source \<Rightarrow> 'a source" where
  "src_Close s = (if closer s then s\<lparr>closeCalls := Suc (closeCalls s)\<rparr> else s)"

section \<open>The composite streams of iter\_exact.go\<close>

text \<open>
  Each struct is a record of its own fields; its child streams, which are interface
  values in Go, are kept beside it in the tree of streams below.
\<close>

record WrapKVSIter_fields =
  yHasNext :: bool
  yNextK :: bytes
  yNextV :: bytes
  err :: "error option"

record WrapKVIter_fields =
  xHasNext :: bool
  xNextK :: bytes
  xNextV :: bytes
  err :: "error option"

record UnionKVIter_fields =
  xHasNext :: bool
  yHasNext :: bool
  xNextK :: bytes
  xNextV :: bytes
  yNextK :: bytes
  yNextV :: bytes
  limit :: go_int
  err :: "error option"

record MergedKV_fields = UnionKVIter_fields +
  xStep :: uint64

text \<open>
  A \<^verbatim>\<open>KV\<close> or \<^verbatim>\<open>KVS\<close> interface value is one of the streams of iter\_exact.go, a base
  stream or a vacuous stream, so the streams form a tree: a composite holds its children,
  and no stream is the child of two.
\<close>

text \<open>
  Modelled from the spec: \<open>EmptyKV\<close> and \<open>EmptyKVS\<close> are values of the types
  \<^verbatim>\<open>Empty2\<close> and \<^verbatim>\<open>Empty3\<close>, which are declared elsewhere in the package. Section 4.2 of
  the specification says that \<^verbatim>\<open>HasNext\<close> of the vacuous stream is always false and that
  its \<^verbatim>\<open>Next\<close> is never validly called; here \<^verbatim>\<open>Next\<close> returns zero values.
\<close>

datatype kv =
    BaseKV "(bytes \<times> bytes) source"
  | EmptyKV
  | UnionKVIter kv kv UnionKVIter_fields
  | WrapKVIter kvs WrapKVIter_fields
and kvs =
    BaseKVS "(bytes \<times> bytes \<times> uint64) source"
  | EmptyKVS
  | WrapKVSIter kv WrapKVSIter_fields
  | MergedKV kvs kv MergedKV_fields

datatype u64 =
    TransformKV2U64Iter kv "bytes \<Rightarrow> bytes \<Rightarrow> uint64 \<times> error option"

subsection \<open>HasNext\<close>

definition UnionKVIter_HasNext :: "UnionKVIter_fields \<Rightarrow> bool" where
  "UnionKVIter_HasNext m \<longleftrightarrow>
     err m \<noteq> None \<or> (limit m \<noteq> 0 \<and> xHasNext m) \<or> (limit m \<noteq> 0 \<and> yHasNext m)"

definition WrapKVSIter_HasNext :: "WrapKVSIter_fields \<Rightarrow> bool" where
  "WrapKVSIter_HasNext m \<longleftrightarrow>
     WrapKVSIter_fields.err m \<noteq> None \<or> WrapKVSIter_fields.yHasNext m"

definition WrapKVIter_HasNext :: "WrapKVIter_fields \<Rightarrow> bool" where
  "WrapKVIter_HasNext m \<longleftrightarrow>
     WrapKVIter_fields.err m \<noteq> None \<or> WrapKVIter_fields.xHasNext m"

definition MergedKV_HasNext :: "MergedKV_fields \<Rightarrow> bool" where
  "MergedKV_HasNext m \<longleftrightarrow>
     err m \<noteq> None \<or> (limit m \<noteq> 0 \<and> xHasNext m) \<or> (limit m \<noteq> 0 \<and> yHasNext m)"

fun kv_HasNext :: "kv \<Rightarrow> bool \<times> kv" where
  "kv_HasNext (BaseKV s) = (case src_HasNext s of (b, s') \<Rightarrow> (b, BaseKV s'))"
| "kv_HasNext EmptyKV = (False, EmptyKV)"
| "kv_HasNext (UnionKVIter x y m) = (UnionKVIter_HasNext m, UnionKVIter x y m)"
| "kv_HasNext (WrapKVIter x m) = (WrapKVIter_HasNext m, WrapKVIter x m)"

fun kvs_HasNext :: "kvs \<Rightarrow> bool \<times> kvs" where
  "kvs_HasNext (BaseKVS s) = (case src_HasNext s of (b, s') \<Rightarrow> (b, BaseKVS s'))"
| "kvs_HasNext EmptyKVS = (False, EmptyKVS)"
| "kvs_HasNext (WrapKVSIter y m) = (WrapKVSIter_HasNext m, WrapKVSIter y m)"
| "kvs_HasNext (MergedKV x y m) = (MergedKV_HasNext m, MergedKV x y m)"

subsection \<open>advance and Next\<close>

text \<open>
  The methods of a struct call \<^verbatim>\<open>HasNext\<close> and \<^verbatim>\<open>Next\<close> of a child through its
  interface. Each of them pulls a child at most once, always as
  \<^verbatim>\<open>h = c.HasNext(); if h { k, v, err = c.Next() }\<close>, so a method takes as its argument
  \<open>px\<close> (or \<open>py\<close>) what that pull on the child answers: whether the child had an element,
  the result of its \<^verbatim>\<open>Next\<close>, and the child afterwards. The functions on the tree of
  streams, further down, pass the pull on the real child.
\<close>

definition UnionKVIter_advanceX ::
  "(bool \<times> kvres) \<times> 'x \<Rightarrow> 'x \<times> 'y \<times> UnionKVIter_fields \<Rightarrow> 'x \<times> 'y \<times> UnionKVIter_fields" where
  "UnionKVIter_advanceX px s =
     (case s of (x, y, m) \<Rightarrow>
        if err m \<noteq> None then s
        else (case px of ((h, (k, v, e)), x') \<Rightarrow>
          if h then (x', y, m\<lparr>xHasNext := h, xNextK := k, xNextV := v, err := e\<rparr>)
          else (x', y, m\<lparr>xHasNext := h\<rparr>)))"

definition UnionKVIter_advanceY ::
  "(bool \<times> kvres) \<times> 'y \<Rightarrow> 'x \<times> 'y \<times> UnionKVIter_fields \<Rightarrow> 'x \<times> 'y \<times> UnionKVIter_fields" where
  "UnionKVIter_advanceY py s =
     (case s of (x, y, m) \<Rightarrow>
        if err m \<noteq> None then s
        else (case py of ((h, (k, v, e)), y') \<Rightarrow>
          if h then (x, y', m\<lparr>yHasNext := h, yNextK := k, yNextV := v, err := e\<rparr>)
          else (x, y', m\<lparr>yHasNext := h\<rparr>)))"

definition UnionKVIter_Next ::
  "(bool \<times> kvres) \<times> 'x \<Rightarrow> (bool \<times> kvres) \<times> 'y \<Rightarrow> 'x \<times> 'y \<times> UnionKVIter_fields
     \<Rightarrow> kvres \<times> 'x \<times> 'y \<times> UnionKVIter_fields" where
  "UnionKVIter_Next px py s =
     (case s of (x, y, m0) \<Rightarrow>
        if err m0 \<noteq> None then (([], [], err m0), s)
        else
          let m = m0\<lparr>limit := limit m0 - 1\<rparr> in
          if xHasNext m \<and> yHasNext m then
            (let cmp = bytes_Compare (xNextK m) (yNextK m) in
             if cmp < 0 then
               ((xNextK m, xNextV m, err m), UnionKVIter_advanceX px (x, y, m))
             else if cmp = 0 then
               ((xNextK m, xNextV m, err m),
                UnionKVIter_advanceY py (UnionKVIter_advanceX px (x, y, m)))
             else
               ((yNextK m, yNextV m, err m), UnionKVIter_advanceY py (x, y, m)))
          else if xHasNext m then
            ((xNextK m, xNextV m, err m), UnionKVIter_advanceX px (x, y, m))
          else
            ((yNextK m, yNextV m, err m), UnionKVIter_advanceY py (x, y, m)))"

definition WrapKVSIter_advance ::
  "(bool \<times> kvres) \<times> 'y \<Rightarrow> 'y \<times> WrapKVSIter_fields \<Rightarrow> 'y \<times> WrapKVSIter_fields" where
  "WrapKVSIter_advance py s =
     (case s of (y, m) \<Rightarrow>
        if WrapKVSIter_fields.err m \<noteq> None then s
        else (case py of ((h, (k, v, e)), y') \<Rightarrow>
          if h then (y', m\<lparr>WrapKVSIter_fields.yHasNext := h, WrapKVSIter_fields.yNextK := k,
                          WrapKVSIter_fields.yNextV := v, WrapKVSIter_fields.err := e\<rparr>)
          else (y', m\<lparr>WrapKVSIter_fields.yHasNext := h\<rparr>)))"

definition WrapKVSIter_Next ::
  "(bool \<times> kvres) \<times> 'y \<Rightarrow> 'y \<times> WrapKVSIter_fields \<Rightarrow> kvsres \<times> 'y \<times> WrapKVSIter_fields" where
  "WrapKVSIter_Next py s =
     (case s of (y, m) \<Rightarrow>
        if WrapKVSIter_fields.err m \<noteq> None then (([], [], 0, WrapKVSIter_fields.err m), s)
        else
          ((WrapKVSIter_fields.yNextK m, WrapKVSIter_fields.yNextV m, 0,
            WrapKVSIter_fields.err m),
           WrapKVSIter_advance py s))"

definition WrapKVIter_advance ::
  "(bool \<times> kvsres) \<times> 'x \<Rightarrow> 'x \<times> WrapKVIter_fields \<Rightarrow> 'x \<times> WrapKVIter_fields" where
  "WrapKVIter_advance px s =
     (case s of (x, m) \<Rightarrow>
        if WrapKVIter_fields.err m \<noteq> None then s
        else (case px of ((h, (k, v, step, e)), x') \<Rightarrow>
          if h then (x', m\<lparr>WrapKVIter_fields.xHasNext := h, WrapKVIter_fields.xNextK := k,
                          WrapKVIter_fields.xNextV := v, WrapKVIter_fields.err := e\<rparr>)
          else (x', m\<lparr>WrapKVIter_fields.xHasNext := h\<rparr>)))"

definition WrapKVIter_Next ::
  "(bool \<times> kvsres) \<times> 'x \<Rightarrow> 'x \<times> WrapKVIter_fields \<Rightarrow> kvres \<times> 'x \<times> WrapKVIter_fields" where
  "WrapKVIter_Next px s =
     (case s of (x, m) \<Rightarrow>
        if WrapKVIter_fields.err m \<noteq> None then (([], [], WrapKVIter_fields.err m), s)
        else
          ((WrapKVIter_fields.xNextK m, WrapKVIter_fields.xNextV m, WrapKVIter_fields.err m),
           WrapKVIter_advance px s))"

definition MergedKV_advanceX ::
  "(bool \<times> kvsres) \<times> 'x \<Rightarrow> 'x \<times> 'y \<times> MergedKV_fields \<Rightarrow> 'x \<times> 'y \<times> MergedKV_fields" where
  "MergedKV_advanceX px s =
     (case s of (x, y, m) \<Rightarrow>
        if err m \<noteq> None then s
        else (case px of ((h, (k, v, step, e)), x') \<Rightarrow>
          if h then
            (x', y, m\<lparr>xHasNext := h, xNextK := k, xNextV := v, xStep := step, err := e\<rparr>)
          else (x', y, m\<lparr>xHasNext := h\<rparr>)))"

definition MergedKV_advanceY ::
  "(bool \<times> kvres) \<times> 'y \<Rightarrow> 'x \<times> 'y \<times> MergedKV_fields \<Rightarrow> 'x \<times> 'y \<times> MergedKV_fields" where
  "MergedKV_advanceY py s =
     (case s of (x, y, m) \<Rightarrow>
        if err m \<noteq> None then s
        else (case py of ((h, (k, v, e)), y') \<Rightarrow>
          if h then (x, y', m\<lparr>yHasNext := h, yNextK := k, yNextV := v, err := e\<rparr>)
          else (x, y', m\<lparr>yHasNext := h\<rparr>)))"

definition MergedKV_Next ::
  "(bool \<times> kvsres) \<times> 'x \<Rightarrow> (bool \<times> kvres) \<times> 'y \<Rightarrow> 'x \<times> 'y \<times> MergedKV_fields
     \<Rightarrow> kvsres \<times> 'x \<times> 'y \<times> MergedKV_fields" where
  "MergedKV_Next px py s =
     (case s of (x, y, m0) \<Rightarrow>
        if err m0 \<noteq> None then (([], [], 0, err m0), s)
        else
          let m = m0\<lparr>limit := limit m0 - 1\<rparr> in
          if xHasNext m \<and> yHasNext m then
            (let cmp = bytes_Compare (xNextK m) (yNextK m) in
             if cmp \<le> 0 then
               ((xNextK m, xNextV m, xStep m, err m), MergedKV_advanceX px (x, y, m))
             else
               ((yNextK m, yNextV m, 0, err m), MergedKV_advanceY py (x, y, m)))
          else if xHasNext m then
            ((xNextK m, xNextV m, xStep m, err m), MergedKV_advanceX px (x, y, m))
          else
            ((yNextK m, yNextV m, 0, err m), MergedKV_advanceY py (x, y, m)))"

subsection \<open>The tree of streams\<close>

text \<open>
  \<open>kv_pull c\<close> is the pull \<^verbatim>\<open>h = c.HasNext(); if h { k, v, err = c.Next() }\<close> on the
  child \<open>c\<close>; \<open>kv_Next\<close> dispatches on the dynamic type of the stream.
\<close>

function kv_Next :: "kv \<Rightarrow> kvres \<times> kv"
  and kvs_Next :: "kvs \<Rightarrow> kvsres \<times> kvs"
  and kv_pull :: "kv \<Rightarrow> (bool \<times> kvres) \<times> kv"
  and kvs_pull :: "kvs \<Rightarrow> (bool \<times> kvsres) \<times> kvs" where
  "kv_Next (BaseKV s) =
     (case src_Next ([], []) s of (((k, v), e), s') \<Rightarrow> ((k, v, e), BaseKV s'))"
| "kv_Next EmptyKV = (([], [], None), EmptyKV)"
| "kv_Next (UnionKVIter x y m) =
     (case UnionKVIter_Next (kv_pull x) (kv_pull y) (x, y, m) of
        (r, (x', y', m')) \<Rightarrow> (r, UnionKVIter x' y' m'))"
| "kv_Next (WrapKVIter x m) =
     (case WrapKVIter_Next (kvs_pull x) (x, m) of (r, (x', m')) \<Rightarrow> (r, WrapKVIter x' m'))"
| "kvs_Next (BaseKVS s) =
     (case src_Next ([], [], 0) s of (((k, v, step), e), s') \<Rightarrow> ((k, v, step, e), BaseKVS s'))"
| "kvs_Next EmptyKVS = (([], [], 0, None), EmptyKVS)"
| "kvs_Next (WrapKVSIter y m) =
     (case WrapKVSIter_Next (kv_pull y) (y, m) of (r, (y', m')) \<Rightarrow> (r, WrapKVSIter y' m'))"
| "kvs_Next (MergedKV x y m) =
     (case MergedKV_Next (kvs_pull x) (kv_pull y) (x, y, m) of
        (r, (x', y', m')) \<Rightarrow> (r, MergedKV x' y' m'))"
| "kv_pull c =
     (case kv_HasNext c of (h, c') \<Rightarrow>
        if h then (case kv_Next c' of (r, c'') \<Rightarrow> ((h, r), c''))
        else ((h, ([], [], None)), c'))"
| "kvs_pull c =
     (case kvs_HasNext c of (h, c') \<Rightarrow>
        if h then (case kvs_Next c' of (r, c'') \<Rightarrow> ((h, r), c''))
        else ((h, ([], [], 0, None)), c'))"
  by pat_completeness auto
termination
proof -
  have kv: "size c' = size c" if "(h, c') = kv_HasNext c" for h c' c
    using that by (cases c) (auto split: prod.splits)
  have kvs: "size c' = size c" if "(h, c') = kvs_HasNext c" for h c' c
    using that by (cases c) (auto split: prod.splits)
  show ?thesis
    by (relation "measure (\<lambda>a. case a of
          Inl (Inl t) \<Rightarrow> 2 * size t + 1
        | Inl (Inr t) \<Rightarrow> 2 * size t + 1
        | Inr (Inl c) \<Rightarrow> 2 * size c + 2
        | Inr (Inr c) \<Rightarrow> 2 * size c + 2)")
      (auto dest: kv kvs)
qed

declare kv_pull.simps [simp del]
declare kvs_pull.simps [simp del]

definition u64_HasNext :: "u64 \<Rightarrow> bool \<times> u64" where
  "u64_HasNext m =
     (case m of TransformKV2U64Iter it transform \<Rightarrow>
        (case kv_HasNext it of (b, it') \<Rightarrow> (b, TransformKV2U64Iter it' transform)))"

definition u64_Next :: "u64 \<Rightarrow> (uint64 \<times> error option) \<times> u64" where
  "u64_Next m =
     (case m of TransformKV2U64Iter it transform \<Rightarrow>
        (case kv_Next it of ((k, v, e), it') \<Rightarrow>
           if e \<noteq> None then ((0, e), TransformKV2U64Iter it' transform)
           else (transform k v, TransformKV2U64Iter it' transform)))"

subsection \<open>Constructors\<close>

text \<open>A nil interface value is \<open>None\<close>.\<close>

definition UnionKVIter_zero :: UnionKVIter_fields where
  "UnionKVIter_zero =
     \<lparr>xHasNext = False, yHasNext = False, xNextK = [], xNextV = [], yNextK = [], yNextV = [],
      limit = 0, err = None\<rparr>"

definition WrapKVSIter_zero :: WrapKVSIter_fields where
  "WrapKVSIter_zero =
     \<lparr>WrapKVSIter_fields.yHasNext = False, WrapKVSIter_fields.yNextK = [],
      WrapKVSIter_fields.yNextV = [], WrapKVSIter_fields.err = None\<rparr>"

definition WrapKVIter_zero :: WrapKVIter_fields where
  "WrapKVIter_zero =
     \<lparr>WrapKVIter_fields.xHasNext = False, WrapKVIter_fields.xNextK = [],
      WrapKVIter_fields.xNextV = [], WrapKVIter_fields.err = None\<rparr>"

definition MergedKV_zero :: MergedKV_fields where
  "MergedKV_zero =
     \<lparr>xHasNext = False, yHasNext = False, xNextK = [], xNextV = [], yNextK = [], yNextV = [],
      limit = 0, err = None, xStep = 0\<rparr>"

definition TransformKV2U64 :: "kv \<Rightarrow> (bytes \<Rightarrow> bytes \<Rightarrow> uint64 \<times> error option) \<Rightarrow> u64" where
  "TransformKV2U64 it transform = TransformKV2U64Iter it transform"

definition UnionKV :: "kv option \<Rightarrow> kv option \<Rightarrow> go_int \<Rightarrow> kv" where
  "UnionKV x y lim =
     (case (x, y) of
        (None, None) \<Rightarrow> EmptyKV
      | (None, Some y0) \<Rightarrow> y0
      | (Some x0, None) \<Rightarrow> x0
      | (Some x0, Some y0) \<Rightarrow>
          (case UnionKVIter_advanceY (kv_pull y0)
                  (UnionKVIter_advanceX (kv_pull x0) (x0, y0, UnionKVIter_zero\<lparr>limit := lim\<rparr>)) of
             (x', y', m) \<Rightarrow> UnionKVIter x' y' m))"

definition WrapKVS :: "kv option \<Rightarrow> kvs" where
  "WrapKVS y =
     (case y of
        None \<Rightarrow> EmptyKVS
      | Some y0 \<Rightarrow>
          (case WrapKVSIter_advance (kv_pull y0) (y0, WrapKVSIter_zero) of
             (y', m) \<Rightarrow> WrapKVSIter y' m))"

definition WrapKV :: "kvs option \<Rightarrow> kv" where
  "WrapKV x =
     (case x of
        None \<Rightarrow> EmptyKV
      | Some x0 \<Rightarrow>
          (case WrapKVIter_advance (kvs_pull x0) (x0, WrapKVIter_zero) of
             (x', m) \<Rightarrow> WrapKVIter x' m))"

definition MergeKVS :: "kvs option \<Rightarrow> kv option \<Rightarrow> go_int \<Rightarrow> kvs" where
  "MergeKVS x y lim =
     (case (x, y) of
        (None, None) \<Rightarrow> EmptyKVS
      | (None, Some y0) \<Rightarrow> WrapKVS y
      | (Some x0, None) \<Rightarrow> x0
      | (Some x0, Some y0) \<Rightarrow>
          (case MergedKV_advanceY (kv_pull y0)
                  (MergedKV_advanceX (kvs_pull x0) (x0, y0, MergedKV_zero\<lparr>limit := lim\<rparr>)) of
             (x', y', m) \<Rightarrow> MergedKV x' y' m))"

subsection \<open>Close\<close>

text \<open>
  \<^verbatim>\<open>if x, ok := m.x.(Closer); ok { x.Close() }\<close>: every struct of iter\_exact.go has a
  \<^verbatim>\<open>Close\<close> method, a base stream has one when \<open>closer\<close> says so, and the vacuous streams
  hold nothing to release.
\<close>

fun kv_Close :: "kv \<Rightarrow> kv" and kvs_Close :: "kvs \<Rightarrow> kvs" where
  "kv_Close (BaseKV s) = BaseKV (src_Close s)"
| "kv_Close EmptyKV = EmptyKV"
| "kv_Close (UnionKVIter x y m) = UnionKVIter (kv_Close x) (kv_Close y) m"
| "kv_Close (WrapKVIter x m) = WrapKVIter (kvs_Close x) m"
| "kvs_Close (BaseKVS s) = BaseKVS (src_Close s)"
| "kvs_Close EmptyKVS = EmptyKVS"
| "kvs_Close (WrapKVSIter y m) = WrapKVSIter (kv_Close y) m"
| "kvs_Close (MergedKV x y m) = MergedKV (kvs_Close x) (kv_Close y) m"

definition u64_Close :: "u64 \<Rightarrow> u64" where
  "u64_Close m =
     (case m of TransformKV2U64Iter it transform \<Rightarrow> TransformKV2U64Iter (kv_Close it) transform)"

section \<open>Draining a stream\<close>

text \<open>
  Modelled from the spec: the drain-to-collection utility (\<^verbatim>\<open>ToArr2\<close>, \<^verbatim>\<open>ToArr3\<close>) is
  not in iter\_exact.go; section 4.3 of the specification says that it pulls until exhaustion
  or error, appending each element, and returns the collection and the error met. The
  collections per tuple position are kept zipped in one list. The loop need not end on
  every stream, so the result is an option.
\<close>

partial_function (option) kv_drain ::
  "(bytes \<times> bytes) list \<Rightarrow> kv \<Rightarrow> ((bytes \<times> bytes) list \<times> error option \<times> kv) option" where
  "kv_drain acc s =
     (case kv_HasNext s of (h, s') \<Rightarrow>
        if \<not> h then Some (acc, None, s')
        else (case kv_Next s' of ((k, v, e), s'') \<Rightarrow>
          if e \<noteq> None then Some (acc, e, s'') else kv_drain (acc @ [(k, v)]) s''))"

partial_function (option) kvs_drain ::
  "(bytes \<times> bytes \<times> uint64) list \<Rightarrow> kvs
     \<Rightarrow> ((bytes \<times> bytes \<times> uint64) list \<times> error option \<times> kvs) option" where
  "kvs_drain acc s =
     (case kvs_HasNext s of (h, s') \<Rightarrow>
        if \<not> h then Some (acc, None, s')
        else (case kvs_Next s' of ((k, v, step, e), s'') \<Rightarrow>
          if e \<noteq> None then Some (acc, e, s'') else kvs_drain (acc @ [(k, v, step)]) s''))"

declare kv_drain.simps [code]
declare kvs_drain.simps [code]

text \<open>What a consumer sees of a drained stream: the elements and the error.\<close>

definition kv_output :: "kv \<Rightarrow> ((bytes \<times> bytes) list \<times> error option) option" where
  "kv_output s = map_option (\<lambda>(out, e, s'). (out, e)) (kv_drain [] s)"

definition kvs_output :: "kvs \<Rightarrow> ((bytes \<times> bytes \<times> uint64) list \<times> error option) option" where
  "kvs_output s = map_option (\<lambda>(out, e, s'). (out, e)) (kvs_drain [] s)"

section \<open>What the streams emit, as lists\<close>

text \<open>
  The order of keys that \<^verbatim>\<open>bytes.Compare\<close> decides: \<open>key_sorted\<close> allows equal
  neighbours, \<open>key_ascending\<close> does not (every key occurs once, as in a table of the
  storage engine).
\<close>

definition key_sorted :: "bytes list \<Rightarrow> bool" where
  "key_sorted ks \<longleftrightarrow> sorted_wrt (\<lambda>a b. bytes_Compare a b \<le> 0) ks"

definition key_ascending :: "bytes list \<Rightarrow> bool" where
  "key_ascending ks \<longleftrightarrow> sorted_wrt (\<lambda>a b. bytes_Compare a b < 0) ks"

text \<open>
  The three branches of \<^verbatim>\<open>UnionKVIter.Next\<close> and the two of \<^verbatim>\<open>MergedKV.Next\<close>, read
  on the lists of elements that the two sides still hold. The theorems below show that a
  drained stream gives a prefix of these lists.
\<close>

fun union_list :: "(bytes \<times> bytes) list \<Rightarrow> (bytes \<times> bytes) list \<Rightarrow> (bytes \<times> bytes) list" where
  "union_list [] ys = ys"
| "union_list (x # xs) [] = x # xs"
| "union_list (x # xs) (y # ys) =
     (if bytes_Compare (fst x) (fst y) < 0 then x # union_list xs (y # ys)
      else if bytes_Compare (fst x) (fst y) = 0 then x # union_list xs ys
      else y # union_list (x # xs) ys)"

fun merge_list ::
  "(bytes \<times> bytes \<times> uint64) list \<Rightarrow> (bytes \<times> bytes) list \<Rightarrow> (bytes \<times> bytes \<times> uint64) list" where
  "merge_list [] ys = map (\<lambda>(k, v). (k, v, 0)) ys"
| "merge_list (x # xs) [] = x # xs"
| "merge_list (x # xs) (y # ys) =
     (if bytes_Compare (fst x) (fst y) \<le> 0 then x # merge_list xs (y # ys)
      else (fst y, snd y, 0) # merge_list (x # xs) ys)"

text \<open>
  The invariant of a lookahead buffer over an error-free base stream: with \<open>h\<close> set, the
  buffered element \<open>b\<close> and the rest of the script are the elements \<open>X\<close> still to come;
  with \<open>h\<close> cleared, nothing is left.
\<close>

definition holds :: "bool \<Rightarrow> 'a \<Rightarrow> 'a source \<Rightarrow> 'a list \<Rightarrow> bool" where
  "holds h b s X \<longleftrightarrow>
     (if h then (\<exists>rest. X = b # rest \<and> script s = map Inr rest) else X = [] \<and> script s = [])"

section \<open>Observations on a stream\<close>

text \<open>The latched error of a composite stream.\<close>

fun kv_err :: "kv \<Rightarrow> error option" where
  "kv_err (UnionKVIter x y m) = err m"
| "kv_err (WrapKVIter x m) = WrapKVIter_fields.err m"
| "kv_err t = None"

fun kvs_err :: "kvs \<Rightarrow> error option" where
  "kvs_err (MergedKV x y m) = err m"
| "kvs_err (WrapKVSIter y m) = WrapKVSIter_fields.err m"
| "kvs_err t = None"

text \<open>Some side of a union or merge has a buffered element, or an error is pending.\<close>

fun kv_pending :: "kv \<Rightarrow> bool" where
  "kv_pending (UnionKVIter x y m) \<longleftrightarrow> err m \<noteq> None \<or> xHasNext m \<or> yHasNext m"
| "kv_pending t \<longleftrightarrow> False"

fun kvs_pending :: "kvs \<Rightarrow> bool" where
  "kvs_pending (MergedKV x y m) \<longleftrightarrow> err m \<noteq> None \<or> xHasNext m \<or> yHasNext m"
| "kvs_pending t \<longleftrightarrow> False"

text \<open>The error that a pull on a child answered, if any.\<close>

definition kv_pull_err :: "(bool \<times> kvres) \<times> 'c \<Rightarrow> error option" where
  "kv_pull_err p = (case p of ((h, k, v, e), c) \<Rightarrow> e)"

definition kvs_pull_err :: "(bool \<times> kvsres) \<times> 'c \<Rightarrow> error option" where
  "kvs_pull_err p = (case p of ((h, k, v, step, e), c) \<Rightarrow> e)"

text \<open>
  The base streams under a composition, from left to right, each with its \<open>closer\<close> flag
  and the number of \<^verbatim>\<open>Close\<close> calls it has received.
\<close>

fun kv_bases :: "kv \<Rightarrow> (bool \<times> nat) list" and kvs_bases :: "kvs \<Rightarrow> (bool \<times> nat) list" where
  "kv_bases (BaseKV s) = [(closer s, closeCalls s)]"
| "kv_bases EmptyKV = []"
| "kv_bases (UnionKVIter x y m) = kv_bases x @ kv_bases y"
| "kv_bases (WrapKVIter x m) = kvs_bases x"
| "kvs_bases (BaseKVS s) = [(closer s, closeCalls s)]"
| "kvs_bases EmptyKVS = []"
| "kvs_bases (WrapKVSIter y m) = kv_bases y"
| "kvs_bases (MergedKV x y m) = kvs_bases x @ kv_bases y"

definition u64_bases :: "u64 \<Rightarrow> (bool \<times> nat) list" where
  "u64_bases m = (case m of TransformKV2U64Iter it transform \<Rightarrow> kv_bases it)"

definition closed_once :: "(bool \<times> nat) list \<Rightarrow> (bool \<times> nat) list" where
  "closed_once bs = map (\<lambda>(c, n). (c, if c then Suc n else n)) bs"

section \<open>Example streams\<close>

text \<open>The streams of the scenario in section 8 of the specification, and some others.\<close>

definition cx :: "(bytes \<times> bytes) source" where
  "cx = \<lparr>script = [Inr ([1], [1]), Inr ([2], [2]), Inr ([4], [4])], closer = True,
     hasNextCalls = 0, nextCalls = 0, closeCalls = 0\<rparr>"

definition cy :: "(bytes \<times> bytes) source" where
  "cy = \<lparr>script = [Inr ([2], [20]), Inr ([3], [30])], closer = False,
     hasNextCalls = 0, nextCalls = 0, closeCalls = 0\<rparr>"

definition cxs :: "(bytes \<times> bytes \<times> uint64) source" where
  "cxs = \<lparr>script = [Inr ([1], [1], 10), Inr ([2], [2], 20), Inr ([4], [4], 40)], closer = True,
     hasNextCalls = 0, nextCalls = 0, closeCalls = 0\<rparr>"

text \<open>A base stream whose second pull fails.\<close>

definition cfail :: "(bytes \<times> bytes) source" where
  "cfail = \<lparr>script = [Inr ([1], [1]), Inl (Error ''io'')], closer = True,
     hasNextCalls = 0, nextCalls = 0, closeCalls = 0\<rparr>"

definition cfails :: "(bytes \<times> bytes \<times> uint64) source" where
  "cfails = \<lparr>script = [Inr ([1], [1], 10), Inl (Error ''io'')], closer = True,
     hasNextCalls = 0, nextCalls = 0, closeCalls = 0\<rparr>"

text \<open>A base stream whose first pull fails.\<close>

definition cerr :: "(bytes \<times> bytes) source" where
  "cerr = \<lparr>script = [Inl (Error ''io'')], closer = True,
     hasNextCalls = 0, nextCalls = 0, closeCalls = 0\<rparr>"

definition cerrs :: "(bytes \<times> bytes \<times> uint64) source" where
  "cerrs = \<lparr>script = [Inl (Error ''io'')], closer = True,
     hasNextCalls = 0, nextCalls = 0, closeCalls = 0\<rparr>"

text \<open>A mapping that fails on the key \<open>[1]\<close> only.\<close>

definition tf :: "bytes \<Rightarrow> bytes \<Rightarrow> uint64 \<times> error option" where
  "tf k v = (if k = [1] then (0, Some (Error ''bad key'')) else (7, None))"

text \<open>
  A stream of \<open>2 ^ 63 + 1\<close> elements with ascending keys (the key of element \<open>i\<close> is \<open>i\<close>
  zero bytes), and an exhausted one.
\<close>

definition long_x :: "(bytes \<times> bytes) source" where
  "long_x = \<lparr>script = map (\<lambda>i. Inr (replicate i 0, [])) [0..<2 ^ 63 + 1], closer = False,
     hasNextCalls = 0, nextCalls = 0, closeCalls = 0\<rparr>"

definition empty_y :: "(bytes \<times> bytes) source" where
  "empty_y = \<lparr>script = [], closer = False, hasNextCalls = 0, nextCalls = 0, closeCalls = 0\<rparr>"

text \<open>Sorted base streams in which the key \<open>[1]\<close> occurs twice, and their partners.\<close>

definition twice_x :: "(bytes \<times> bytes) source" where
  "twice_x = \<lparr>script = [Inr ([1], [1]), Inr ([1], [2])], closer = False,
     hasNextCalls = 0, nextCalls = 0, closeCalls = 0\<rparr>"


definition twice_xs :: "(bytes \<times> bytes \<times> uint64) source" where
  "twice_xs = \<lparr>script = [Inr ([1], [1], 5), Inr ([1], [2], 6)], closer = False,
     hasNextCalls = 0, nextCalls = 0, closeCalls = 0\<rparr>"


definition once_y :: "(bytes \<times> bytes) source" where
  "once_y = \<lparr>script = [Inr ([1], [9])], closer = False,
     hasNextCalls = 0, nextCalls = 0, closeCalls = 0\<rparr>"

section \<open>Lemmas\<close>

subsection \<open>The order of keys\<close>

text \<open>\<^verbatim>\<open>bytes.Compare\<close> decides the lexicographic order of byte lists.\<close>

lemma bytes_Compare_less: "bytes_Compare a b < 0 \<longleftrightarrow> a < b"
  by (induction a b rule: bytes_Compare.induct) auto

lemma bytes_Compare_eq: "bytes_Compare a b = 0 \<longleftrightarrow> a = b"
  by (induction a b rule: bytes_Compare.induct) auto

lemma bytes_Compare_le: "bytes_Compare a b \<le> 0 \<longleftrightarrow> a \<le> b"
  using bytes_Compare_less [of a b] bytes_Compare_eq [of a b] by (auto simp: order_le_less)

lemma key_sorted_iff: "key_sorted ks \<longleftrightarrow> sorted ks"
  by (simp add: key_sorted_def bytes_Compare_le)

lemma key_ascending_iff: "key_ascending ks \<longleftrightarrow> sorted_wrt (<) ks"
  by (simp add: key_ascending_def bytes_Compare_less)

subsection \<open>The merged lists\<close>

lemma union_list_Nil2 [simp]: "union_list xs [] = xs"
  by (cases xs) simp_all

lemma merge_list_Nil2 [simp]: "merge_list xs [] = xs"
  by (cases xs) simp_all

lemma keys_union_list:
  "set (map fst (union_list xs ys)) = set (map fst xs) \<union> set (map fst ys)"
  by (induction xs ys rule: union_list.induct) (auto simp: bytes_Compare_eq)

lemma keys_merge_list:
  "set (map fst (merge_list xs ys)) = set (map fst xs) \<union> set (map fst ys)"
  by (induction xs ys rule: merge_list.induct) (auto simp: image_image case_prod_unfold)

lemma sorted_union_list:
  "sorted (map fst xs) \<Longrightarrow> sorted (map fst ys) \<Longrightarrow> sorted (map fst (union_list xs ys))"
proof (induction xs ys rule: union_list.induct)
  case (3 x xs y ys)
  have xs: "\<forall>k\<in>set (map fst xs). fst x \<le> k" and sx: "sorted (map fst xs)"
    and ys: "\<forall>k\<in>set (map fst ys). fst y \<le> k" and sy: "sorted (map fst ys)"
    using "3.prems" by simp_all
  consider (lt) "fst x < fst y" | (eq) "fst x = fst y" | (gt) "fst y < fst x"
    by (rule linorder_cases)
  then show ?case
  proof cases
    case lt
    then have c: "bytes_Compare (fst x) (fst y) < 0" by (simp add: bytes_Compare_less)
    have "sorted (map fst (union_list xs (y # ys)))"
      using "3.IH"(1) [OF c sx "3.prems"(2)] .
    moreover have "\<forall>k\<in>set (map fst (union_list xs (y # ys))). fst x \<le> k"
      unfolding keys_union_list using xs ys lt by force
    ultimately show ?thesis using c by simp
  next
    case eq
    then have c: "\<not> bytes_Compare (fst x) (fst y) < 0" "bytes_Compare (fst x) (fst y) = 0"
      by (simp_all add: bytes_Compare_less bytes_Compare_eq)
    have "sorted (map fst (union_list xs ys))"
      using "3.IH"(2) [OF c sx sy] .
    moreover have "\<forall>k\<in>set (map fst (union_list xs ys)). fst x \<le> k"
      unfolding keys_union_list using xs ys eq by force
    ultimately show ?thesis using c by simp
  next
    case gt
    then have c: "\<not> bytes_Compare (fst x) (fst y) < 0" "bytes_Compare (fst x) (fst y) \<noteq> 0"
      by (simp_all add: bytes_Compare_less bytes_Compare_eq)
    have "sorted (map fst (union_list (x # xs) ys))"
      using "3.IH"(3) [OF c "3.prems"(1) sy] .
    moreover have "\<forall>k\<in>set (map fst (union_list (x # xs) ys)). fst y \<le> k"
      unfolding keys_union_list using xs ys gt by force
    ultimately show ?thesis using c by simp
  qed
qed simp_all

lemma strict_union_list:
  "sorted_wrt (<) (map fst xs) \<Longrightarrow> sorted_wrt (<) (map fst ys) \<Longrightarrow> sorted_wrt (<) (map fst (union_list xs ys))"
proof (induction xs ys rule: union_list.induct)
  case (3 x xs y ys)
  have xs: "\<forall>k\<in>set (map fst xs). fst x < k" and sx: "sorted_wrt (<) (map fst xs)"
    and ys: "\<forall>k\<in>set (map fst ys). fst y < k" and sy: "sorted_wrt (<) (map fst ys)"
    using "3.prems" by simp_all
  consider (lt) "fst x < fst y" | (eq) "fst x = fst y" | (gt) "fst y < fst x"
    by (rule linorder_cases)
  then show ?case
  proof cases
    case lt
    then have c: "bytes_Compare (fst x) (fst y) < 0" by (simp add: bytes_Compare_less)
    have "sorted_wrt (<) (map fst (union_list xs (y # ys)))"
      using "3.IH"(1) [OF c sx "3.prems"(2)] .
    moreover have "\<forall>k\<in>set (map fst (union_list xs (y # ys))). fst x < k"
      unfolding keys_union_list using xs ys lt by force
    ultimately show ?thesis using c by simp
  next
    case eq
    then have c: "\<not> bytes_Compare (fst x) (fst y) < 0" "bytes_Compare (fst x) (fst y) = 0"
      by (simp_all add: bytes_Compare_less bytes_Compare_eq)
    have "sorted_wrt (<) (map fst (union_list xs ys))"
      using "3.IH"(2) [OF c sx sy] .
    moreover have "\<forall>k\<in>set (map fst (union_list xs ys)). fst x < k"
      unfolding keys_union_list using xs ys eq by force
    ultimately show ?thesis using c by simp
  next
    case gt
    then have c: "\<not> bytes_Compare (fst x) (fst y) < 0" "bytes_Compare (fst x) (fst y) \<noteq> 0"
      by (simp_all add: bytes_Compare_less bytes_Compare_eq)
    have "sorted_wrt (<) (map fst (union_list (x # xs) ys))"
      using "3.IH"(3) [OF c "3.prems"(1) sy] .
    moreover have "\<forall>k\<in>set (map fst (union_list (x # xs) ys)). fst y < k"
      unfolding keys_union_list using xs ys gt by force
    ultimately show ?thesis using c by simp
  qed
qed simp_all

lemma sorted_merge_list:
  "sorted (map fst xs) \<Longrightarrow> sorted (map fst ys) \<Longrightarrow> sorted (map fst (merge_list xs ys))"
proof (induction xs ys rule: merge_list.induct)
  case (1 ys)
  then show ?case by (simp add: comp_def case_prod_unfold)
next
  case (3 x xs y ys)
  have xs: "\<forall>k\<in>set (map fst xs). fst x \<le> k" and sx: "sorted (map fst xs)"
    and ys: "\<forall>k\<in>set (map fst ys). fst y \<le> k" and sy: "sorted (map fst ys)"
    using "3.prems" by simp_all
  show ?case
  proof (cases "fst x \<le> fst y")
    case True
    then have c: "bytes_Compare (fst x) (fst y) \<le> 0" by (simp add: bytes_Compare_le)
    have "sorted (map fst (merge_list xs (y # ys)))"
      using "3.IH"(1) [OF c sx "3.prems"(2)] .
    moreover have "\<forall>k\<in>set (map fst (merge_list xs (y # ys))). fst x \<le> k"
      unfolding keys_merge_list using xs ys True by force
    ultimately show ?thesis using c by simp
  next
    case False
    then have c: "\<not> bytes_Compare (fst x) (fst y) \<le> 0" by (simp add: bytes_Compare_le)
    have "sorted (map fst (merge_list (x # xs) ys))"
      using "3.IH"(2) [OF c "3.prems"(1) sy] .
    moreover have "\<forall>k\<in>set (map fst (merge_list (x # xs) ys)). fst y \<le> k"
      unfolding keys_merge_list using xs ys False by force
    ultimately show ?thesis using c by simp
  qed
qed simp_all

lemma length_merge_list: "length (merge_list xs ys) = length xs + length ys"
  by (induction xs ys rule: merge_list.induct) auto




lemma length_union_list:
  assumes "sorted_wrt (<) (map fst xs)" "sorted_wrt (<) (map fst ys)"
  shows "length (union_list xs ys) = card (set (map fst xs) \<union> set (map fst ys))"
proof -
  have "distinct (map fst (union_list xs ys))"
    using strict_union_list [OF assms] strict_sorted_iff by blast
  then have "card (set (map fst (union_list xs ys))) = length (map fst (union_list xs ys))"
    by (rule distinct_card)
  with keys_union_list [of xs ys] show ?thesis by simp
qed





subsection \<open>The 64-bit limit\<close>

text \<open>
  The limit counts down from its bit pattern read unsigned: a positive limit from itself, a
  negative one from at least \<open>2 ^ 63\<close>.
\<close>

lemma small_uint:
  fixes lim :: go_int
  assumes "unat lim < 2 ^ 63"
  shows "uint lim < 2 ^ 63"
proof -
  have "int (unat lim) < int (2 ^ 63)" using assms by (rule iffD2 [OF of_nat_less_iff])
  then show ?thesis by (simp only: of_nat_power of_nat_numeral of_nat_unat)
qed

lemma sint_of_small:
  fixes lim :: go_int
  assumes "unat lim < 2 ^ 63"
  shows "sint lim = uint lim"
proof -
  have "uint lim < 2 ^ 63" using assms by (rule small_uint)
  moreover have "- (2 ^ 63) \<le> uint lim"
    by (rule order_trans [OF _ uint_nonnegative]) simp
  ultimately have "signed_take_bit 63 (uint lim) = uint lim"
    by (rule signed_take_bit_int_eq_self [rotated])
  then show ?thesis by (simp add: sint_uint)
qed

lemma sint_of_large:
  fixes lim :: go_int
  assumes "\<not> unat lim < 2 ^ 63"
  shows "sint lim < 0"
proof -
  have "\<not> uint lim < 2 ^ 63"
  proof
    assume "uint lim < 2 ^ 63"
    then have "int (unat lim) < int (2 ^ 63)"
      by (simp only: of_nat_power of_nat_numeral of_nat_unat)
    then have "unat lim < 2 ^ 63" by (rule iffD1 [OF of_nat_less_iff])
    with assms show False ..
  qed
  then have "2 ^ 63 \<le> uint lim" by linarith
  then have "signed_take_bit 63 (uint lim) \<le> uint lim - 2 ^ Suc 63"
    by (rule signed_take_bit_int_less_eq)
  moreover have "uint lim < 2 ^ 64" using uint_lt2p [of lim] by simp
  moreover have "sint lim = signed_take_bit 63 (uint lim)" by (simp add: sint_uint)
  moreover have "(2::int) ^ Suc 63 = 2 ^ 64" by simp
  ultimately show ?thesis by linarith
qed

lemma unat_of_positive:
  fixes lim :: go_int
  assumes "0 < sint lim"
  shows "unat lim = nat (sint lim)"
proof (cases "unat lim < 2 ^ 63")
  case True
  then have "sint lim = uint lim" by (rule sint_of_small)
  then show ?thesis by simp
next
  case False
  then have "sint lim < 0" by (rule sint_of_large)
  with assms show ?thesis by simp
qed

lemma negative_minus_nat_nonzero:
  fixes lim :: go_int
  assumes "sint lim < 0" "j < 2 ^ 63"
  shows "lim - of_nat j \<noteq> 0"
proof
  assume "lim - of_nat j = 0"
  then have l: "lim = of_nat j" by simp
  have "j < 2 ^ 64" using assms(2) by (rule less_trans) simp
  then have "j < 2 ^ LENGTH(64)" by simp
  with l have "unat lim = j" by (simp add: of_nat_inverse)
  with assms(2) have "unat lim < 2 ^ 63" by simp
  then have "sint lim = uint lim" by (rule sint_of_small)
  with assms(1) uint_nonnegative [of lim] show False by simp
qed

lemma take_unat_Cons:
  "(w :: go_int) \<noteq> 0 \<Longrightarrow> take (unat w) (p # l) = p # take (unat (w - 1)) l"
  by (simp add: take_Cons' unat_minus_one unat_eq_zero)

subsection \<open>Pulls on a base stream\<close>

lemma kv_pull_base:
  "script s = map Inr xr \<Longrightarrow>
   \<exists>s'. kv_pull (BaseKV s) =
           ((xr \<noteq> [], case xr of [] \<Rightarrow> ([], [], None) | p # r \<Rightarrow> (fst p, snd p, None)), BaseKV s')
        \<and> script s' = map Inr (tl xr)"
  by (cases xr) (auto simp: src_HasNext_def src_Next_def kv_pull.simps kvs_pull.simps)

lemma kvs_pull_base:
  "script s = map Inr xr \<Longrightarrow>
   \<exists>s'. kvs_pull (BaseKVS s) =
           ((xr \<noteq> [], case xr of [] \<Rightarrow> ([], [], 0, None)
                        | p # r \<Rightarrow> (fst p, fst (snd p), snd (snd p), None)), BaseKVS s')
        \<and> script s' = map Inr (tl xr)"
  by (cases xr) (auto simp: src_HasNext_def src_Next_def kv_pull.simps kvs_pull.simps)

lemma kv_pull_base_calls:
  "\<exists>s'. snd (kv_pull (BaseKV s)) = BaseKV s'
     \<and> hasNextCalls s' = Suc (hasNextCalls s)
     \<and> nextCalls s' = (if script s = [] then nextCalls s else Suc (nextCalls s))"
  by (simp add: kv_pull.simps src_HasNext_def src_Next_def split: list.splits sum.splits)

lemma kvs_pull_base_calls:
  "\<exists>s'. snd (kvs_pull (BaseKVS s)) = BaseKVS s'
     \<and> hasNextCalls s' = Suc (hasNextCalls s)
     \<and> nextCalls s' = (if script s = [] then nextCalls s else Suc (nextCalls s))"
  by (simp add: kvs_pull.simps src_HasNext_def src_Next_def split: list.splits sum.splits)

lemma kv_pull_err_False: "\<not> fst (fst (kv_pull c)) \<Longrightarrow> kv_pull_err (kv_pull c) = None"
proof -
  obtain a b where h: "kv_HasNext c = (a, b)" by (cases "kv_HasNext c")
  obtain r b' where n: "kv_Next b = (r, b')" by (cases "kv_Next b")
  assume "\<not> fst (fst (kv_pull c))"
  then show ?thesis by (cases a) (simp_all add: kv_pull.simps kv_pull_err_def h n)
qed

lemma kvs_pull_err_False: "\<not> fst (fst (kvs_pull c)) \<Longrightarrow> kvs_pull_err (kvs_pull c) = None"
proof -
  obtain a b where h: "kvs_HasNext c = (a, b)" by (cases "kvs_HasNext c")
  obtain r b' where n: "kvs_Next b = (r, b')" by (cases "kvs_Next b")
  assume "\<not> fst (fst (kvs_pull c))"
  then show ?thesis by (cases a) (simp_all add: kvs_pull.simps kvs_pull_err_def h n)
qed

lemma holds_nonempty: "holds h b s X \<Longrightarrow> h \<longleftrightarrow> X \<noteq> []"
  by (auto simp: holds_def split: if_splits)

lemma base_drain:
  "script s = map Inr xs \<Longrightarrow> \<exists>t'. kv_drain acc (BaseKV s) = Some (acc @ xs, None, t')"
proof (induction xs arbitrary: s acc)
  case Nil
  then show ?case by (subst kv_drain.simps) (simp add: src_HasNext_def)
next
  case (Cons p xs)
  obtain k v where p: "p = (k, v)" by (cases p)
  define s' where "s' = s\<lparr>hasNextCalls := Suc (hasNextCalls s)\<rparr>\<lparr>script := map Inr xs,
    nextCalls := Suc (nextCalls s)\<rparr>"
  have "script s' = map Inr xs" by (simp add: s'_def)
  from Cons.IH [OF this, of "acc @ [p]"] obtain t' where
    "kv_drain (acc @ [p]) (BaseKV s') = Some ((acc @ [p]) @ xs, None, t')" by blast
  then have "kv_drain acc (BaseKV s) = Some ((acc @ [p]) @ xs, None, t')"
    using Cons.prems
    by (subst kv_drain.simps) (simp add: src_HasNext_def src_Next_def s'_def p)
  then show ?case by simp
qed

lemma base_output: "script s = map Inr xs \<Longrightarrow> kv_output (BaseKV s) = Some (xs, None)"
  using base_drain [of s xs "[]"] by (auto simp: kv_output_def)

lemma bases_drain:
  "script s = map Inr xs \<Longrightarrow> \<exists>t'. kvs_drain acc (BaseKVS s) = Some (acc @ xs, None, t')"
proof (induction xs arbitrary: s acc)
  case Nil
  then show ?case by (subst kvs_drain.simps) (simp add: src_HasNext_def)
next
  case (Cons p xs)
  obtain k v st where p: "p = (k, v, st)" by (cases p)
  define s' where "s' = s\<lparr>hasNextCalls := Suc (hasNextCalls s)\<rparr>\<lparr>script := map Inr xs,
    nextCalls := Suc (nextCalls s)\<rparr>"
  have "script s' = map Inr xs" by (simp add: s'_def)
  from Cons.IH [OF this, of "acc @ [p]"] obtain t' where
    "kvs_drain (acc @ [p]) (BaseKVS s') = Some ((acc @ [p]) @ xs, None, t')" by blast
  then have "kvs_drain acc (BaseKVS s) = Some ((acc @ [p]) @ xs, None, t')"
    using Cons.prems
    by (subst kvs_drain.simps) (simp add: src_HasNext_def src_Next_def s'_def p)
  then show ?case by simp
qed

lemma bases_output: "script s = map Inr xs \<Longrightarrow> kvs_output (BaseKVS s) = Some (xs, None)"
  using bases_drain [of s xs "[]"] by (auto simp: kvs_output_def)

lemma empty_outputs:
  "kv_output EmptyKV = Some ([], None)" "kvs_output EmptyKVS = Some ([], None)"
  by (simp_all add: kv_output_def kvs_output_def kv_drain.simps kvs_drain.simps)

subsection \<open>A union over two base streams\<close>

text \<open>
  One \<^verbatim>\<open>Next\<close> emits the head of \<open>union_list\<close> and keeps the invariant of the two
  buffers; the drained stream is therefore a prefix of \<open>union_list\<close>, as long as the limit.
\<close>

lemma union_advanceX_base:
  assumes "script sx = map Inr xr" "err m = None"
  shows "\<exists>sx' m'. UnionKVIter_advanceX (kv_pull (BaseKV sx)) (BaseKV sx, y, m) = (BaseKV sx', y, m')
      \<and> holds (xHasNext m') (xNextK m', xNextV m') sx' xr
      \<and> err m' = None \<and> limit m' = limit m
      \<and> yHasNext m' = yHasNext m \<and> yNextK m' = yNextK m \<and> yNextV m' = yNextV m"
proof -
  from kv_pull_base [OF assms(1)] obtain s' where
    p: "kv_pull (BaseKV sx) =
           ((xr \<noteq> [], case xr of [] \<Rightarrow> ([], [], None) | p # r \<Rightarrow> (fst p, snd p, None)), BaseKV s')"
    and s': "script s' = map Inr (tl xr)" by blast
  show ?thesis
    unfolding p using assms(2) s'
    by (cases xr) (auto simp: UnionKVIter_advanceX_def holds_def)
qed

lemma union_advanceY_base:
  assumes "script sy = map Inr yr" "err m = None"
  shows "\<exists>sy' m'. UnionKVIter_advanceY (kv_pull (BaseKV sy)) (x, BaseKV sy, m) = (x, BaseKV sy', m')
      \<and> holds (yHasNext m') (yNextK m', yNextV m') sy' yr
      \<and> err m' = None \<and> limit m' = limit m
      \<and> xHasNext m' = xHasNext m \<and> xNextK m' = xNextK m \<and> xNextV m' = xNextV m"
proof -
  from kv_pull_base [OF assms(1)] obtain s' where
    p: "kv_pull (BaseKV sy) =
           ((yr \<noteq> [], case yr of [] \<Rightarrow> ([], [], None) | p # r \<Rightarrow> (fst p, snd p, None)), BaseKV s')"
    and s': "script s' = map Inr (tl yr)" by blast
  show ?thesis
    unfolding p using assms(2) s'
    by (cases yr) (auto simp: UnionKVIter_advanceY_def holds_def)
qed

lemma union_step:
  assumes hx: "holds (xHasNext m) (xNextK m, xNextV m) sx X"
    and hy: "holds (yHasNext m) (yNextK m, yNextV m) sy Y"
    and e: "err m = None" and ne: "X \<noteq> [] \<or> Y \<noteq> []"
  shows "\<exists>sx' sy' m' X' Y' p.
      kv_Next (UnionKVIter (BaseKV sx) (BaseKV sy) m) =
        ((fst p, snd p, None), UnionKVIter (BaseKV sx') (BaseKV sy') m')
      \<and> holds (xHasNext m') (xNextK m', xNextV m') sx' X'
      \<and> holds (yHasNext m') (yNextK m', yNextV m') sy' Y'
      \<and> err m' = None \<and> limit m' = limit m - 1
      \<and> union_list X Y = p # union_list X' Y'
      \<and> length X' + length Y' < length X + length Y"
proof -
  define m1 where "m1 = m\<lparr>limit := limit m - 1\<rparr>"
  have m1: "err m1 = None" "xHasNext m1 = xHasNext m" "yHasNext m1 = yHasNext m"
    "xNextK m1 = xNextK m" "xNextV m1 = xNextV m" "yNextK m1 = yNextK m" "yNextV m1 = yNextV m"
    "limit m1 = limit m - 1"
    using e by (simp_all add: m1_def)
  have advX: "\<exists>sx' m'. UnionKVIter_advanceX (kv_pull (BaseKV sx)) (BaseKV sx, BaseKV sy, m1)
          = (BaseKV sx', BaseKV sy, m')
      \<and> holds (xHasNext m') (xNextK m', xNextV m') sx' (tl X)
      \<and> holds (yHasNext m') (yNextK m', yNextV m') sy Y
      \<and> err m' = None \<and> limit m' = limit m - 1" if "xHasNext m"
  proof -
    from hx that obtain xr where X: "X = (xNextK m, xNextV m) # xr" and sc: "script sx = map Inr xr"
      by (auto simp: holds_def)
    from union_advanceX_base [OF sc m1(1), of "BaseKV sy"] hy show ?thesis
      by (auto simp: X m1)
  qed
  have advY: "\<exists>sy' m'. UnionKVIter_advanceY (kv_pull (BaseKV sy)) (BaseKV sx0, BaseKV sy, m0)
          = (BaseKV sx0, BaseKV sy', m')
      \<and> holds (xHasNext m') (xNextK m', xNextV m') sx0 X0
      \<and> holds (yHasNext m') (yNextK m', yNextV m') sy' (tl Y)
      \<and> err m' = None \<and> limit m' = limit m0"
    if "yHasNext m" "holds (xHasNext m0) (xNextK m0, xNextV m0) sx0 X0" "err m0 = None"
    for sx0 m0 X0
  proof -
    from hy that(1) obtain yr where Y: "Y = (yNextK m, yNextV m) # yr" and sc: "script sy = map Inr yr"
      by (auto simp: holds_def)
    from union_advanceY_base [OF sc that(3), of "BaseKV sx0"] that(2) show ?thesis
      by (auto simp: Y)
  qed
  have nx: "kv_Next (UnionKVIter (BaseKV sx) (BaseKV sy) m) =
     (case (if xHasNext m \<and> yHasNext m then
            (if bytes_Compare (xNextK m) (yNextK m) < 0 then
               ((xNextK m, xNextV m, None),
                UnionKVIter_advanceX (kv_pull (BaseKV sx)) (BaseKV sx, BaseKV sy, m1))
             else if bytes_Compare (xNextK m) (yNextK m) = 0 then
               ((xNextK m, xNextV m, None),
                UnionKVIter_advanceY (kv_pull (BaseKV sy))
                  (UnionKVIter_advanceX (kv_pull (BaseKV sx)) (BaseKV sx, BaseKV sy, m1)))
             else
               ((yNextK m, yNextV m, None),
                UnionKVIter_advanceY (kv_pull (BaseKV sy)) (BaseKV sx, BaseKV sy, m1)))
          else if xHasNext m then
            ((xNextK m, xNextV m, None),
             UnionKVIter_advanceX (kv_pull (BaseKV sx)) (BaseKV sx, BaseKV sy, m1))
          else
            ((yNextK m, yNextV m, None),
             UnionKVIter_advanceY (kv_pull (BaseKV sy)) (BaseKV sx, BaseKV sy, m1)))
      of (r, (x', y', m')) \<Rightarrow> (r, UnionKVIter x' y' m'))"
    using e by (simp add: UnionKVIter_Next_def Let_def m1_def del: kv_pull.simps)
  consider (both) "xHasNext m" "yHasNext m" | (xonly) "xHasNext m" "\<not> yHasNext m"
    | (yonly) "\<not> xHasNext m" "yHasNext m"
    using hx hy ne by (auto simp: holds_def split: if_splits)
  then show ?thesis
  proof cases
    case xonly
    from hx hy xonly obtain xr where X: "X = (xNextK m, xNextV m) # xr" and Y: "Y = []"
      by (auto simp: holds_def)
    from advX [OF xonly(1)] obtain sx' m' where
      "UnionKVIter_advanceX (kv_pull (BaseKV sx)) (BaseKV sx, BaseKV sy, m1) = (BaseKV sx', BaseKV sy, m')"
      "holds (xHasNext m') (xNextK m', xNextV m') sx' (tl X)"
      "holds (yHasNext m') (yNextK m', yNextV m') sy Y"
      "err m' = None" "limit m' = limit m - 1" by blast
    note st = this
    show ?thesis
      unfolding nx
      apply (rule exI [of _ sx'], rule exI [of _ sy], rule exI [of _ m'], rule exI [of _ "tl X"], rule exI [of _ Y], rule exI [of _ "(xNextK m, xNextV m)"])
      using st xonly by (simp add: X Y)
  next
    case yonly
    from hx hy yonly obtain yr where Y: "Y = (yNextK m, yNextV m) # yr" and X: "X = []"
      by (auto simp: holds_def)
    from hx have hx1: "holds (xHasNext m1) (xNextK m1, xNextV m1) sx X" by (simp add: m1)
    from advY [OF yonly(2) hx1 m1(1)] obtain sy' m' where
      "UnionKVIter_advanceY (kv_pull (BaseKV sy)) (BaseKV sx, BaseKV sy, m1) = (BaseKV sx, BaseKV sy', m')"
      "holds (xHasNext m') (xNextK m', xNextV m') sx X"
      "holds (yHasNext m') (yNextK m', yNextV m') sy' (tl Y)"
      "err m' = None" "limit m' = limit m1" by blast
    note st = this
    show ?thesis
      unfolding nx
      apply (rule exI [of _ sx], rule exI [of _ sy'], rule exI [of _ m'], rule exI [of _ X], rule exI [of _ "tl Y"], rule exI [of _ "(yNextK m, yNextV m)"])
      using st yonly by (simp add: X Y m1)
  next
    case both
    from hx hy both obtain xr yr where X: "X = (xNextK m, xNextV m) # xr"
      and Y: "Y = (yNextK m, yNextV m) # yr"
      by (auto simp: holds_def)
    from advX [OF both(1)] obtain sx' mx where ax:
      "UnionKVIter_advanceX (kv_pull (BaseKV sx)) (BaseKV sx, BaseKV sy, m1) = (BaseKV sx', BaseKV sy, mx)"
      "holds (xHasNext mx) (xNextK mx, xNextV mx) sx' (tl X)"
      "holds (yHasNext mx) (yNextK mx, yNextV mx) sy Y"
      "err mx = None" "limit mx = limit m - 1" by blast
    from hx have hx1: "holds (xHasNext m1) (xNextK m1, xNextV m1) sx X" by (simp add: m1)
    from advY [OF both(2) hx1 m1(1)] obtain sy' my where ay:
      "UnionKVIter_advanceY (kv_pull (BaseKV sy)) (BaseKV sx, BaseKV sy, m1) = (BaseKV sx, BaseKV sy', my)"
      "holds (xHasNext my) (xNextK my, xNextV my) sx X"
      "holds (yHasNext my) (yNextK my, yNextV my) sy' (tl Y)"
      "err my = None" "limit my = limit m1" by blast
    from advY [OF both(2) ax(2) ax(4)] obtain sy2 mxy where axy:
      "UnionKVIter_advanceY (kv_pull (BaseKV sy)) (BaseKV sx', BaseKV sy, mx) = (BaseKV sx', BaseKV sy2, mxy)"
      "holds (xHasNext mxy) (xNextK mxy, xNextV mxy) sx' (tl X)"
      "holds (yHasNext mxy) (yNextK mxy, yNextV mxy) sy2 (tl Y)"
      "err mxy = None" "limit mxy = limit mx" by blast
    consider (lt) "bytes_Compare (xNextK m) (yNextK m) < 0"
      | (eq) "bytes_Compare (xNextK m) (yNextK m) = 0"
      | (gt) "\<not> bytes_Compare (xNextK m) (yNextK m) < 0" "bytes_Compare (xNextK m) (yNextK m) \<noteq> 0"
      by blast
    then show ?thesis
    proof cases
      case lt
      show ?thesis
        unfolding nx
        apply (rule exI [of _ sx'], rule exI [of _ sy], rule exI [of _ mx], rule exI [of _ "tl X"], rule exI [of _ Y], rule exI [of _ "(xNextK m, xNextV m)"])
        using ax both lt by (simp add: X Y)
    next
      case eq
      show ?thesis
        unfolding nx
        apply (rule exI [of _ sx'], rule exI [of _ sy2], rule exI [of _ mxy], rule exI [of _ "tl X"], rule exI [of _ "tl Y"], rule exI [of _ "(xNextK m, xNextV m)"])
        using ax(1,5) axy both eq by (simp add: X Y)
    next
      case gt
      show ?thesis
        unfolding nx
        apply (rule exI [of _ sx], rule exI [of _ sy'], rule exI [of _ my], rule exI [of _ X], rule exI [of _ "tl Y"], rule exI [of _ "(yNextK m, yNextV m)"])
        using ay both gt by (simp add: X Y m1)
    qed
  qed
qed

lemma union_drain:
  assumes "holds (xHasNext m) (xNextK m, xNextV m) sx X"
    and "holds (yHasNext m) (yNextK m, yNextV m) sy Y"
    and "err m = None"
  shows "\<exists>t'. kv_drain acc (UnionKVIter (BaseKV sx) (BaseKV sy) m) =
           Some (acc @ take (unat (limit m)) (union_list X Y), None, t')"
  using assms
proof (induction "length X + length Y" arbitrary: X Y m sx sy acc rule: less_induct)
  case less
  let ?t = "UnionKVIter (BaseKV sx) (BaseKV sy) m"
  have hn: "UnionKVIter_HasNext m \<longleftrightarrow> limit m \<noteq> 0 \<and> (X \<noteq> [] \<or> Y \<noteq> [])"
    using holds_nonempty [OF less.prems(1)] holds_nonempty [OF less.prems(2)] less.prems(3)
    by (auto simp: UnionKVIter_HasNext_def)
  show ?case
  proof (cases "UnionKVIter_HasNext m")
    case False
    then have "take (unat (limit m)) (union_list X Y) = []"
      using hn by auto
    then show ?thesis
      using False by (subst kv_drain.simps) simp
  next
    case True
    then have ne: "X \<noteq> [] \<or> Y \<noteq> []" and l0: "limit m \<noteq> 0" using hn by auto
    from union_step [OF less.prems ne] obtain sx' sy' m' X' Y' p where st:
      "kv_Next ?t = ((fst p, snd p, None), UnionKVIter (BaseKV sx') (BaseKV sy') m')"
      "holds (xHasNext m') (xNextK m', xNextV m') sx' X'"
      "holds (yHasNext m') (yNextK m', yNextV m') sy' Y'"
      "err m' = None" "limit m' = limit m - 1"
      "union_list X Y = p # union_list X' Y'"
      "length X' + length Y' < length X + length Y" by blast
    from less.hyps [OF st(7) st(2) st(3) st(4), of "acc @ [p]"] obtain t' where
      "kv_drain (acc @ [p]) (UnionKVIter (BaseKV sx') (BaseKV sy') m') =
         Some ((acc @ [p]) @ take (unat (limit m')) (union_list X' Y'), None, t')" by blast
    then have "kv_drain acc ?t =
         Some ((acc @ [p]) @ take (unat (limit m')) (union_list X' Y'), None, t')"
      using True st(1) by (subst kv_drain.simps) simp
    then show ?thesis
      by (simp add: st(5) st(6) take_unat_Cons [OF l0])
  qed
qed

lemma UnionKV_base_state:
  assumes "script sx = map Inr xs" "script sy = map Inr ys"
  shows "\<exists>sx' sy' m. UnionKV (Some (BaseKV sx)) (Some (BaseKV sy)) lim
             = UnionKVIter (BaseKV sx') (BaseKV sy') m
      \<and> holds (xHasNext m) (xNextK m, xNextV m) sx' xs
      \<and> holds (yHasNext m) (yNextK m, yNextV m) sy' ys
      \<and> err m = None \<and> limit m = lim"
proof -
  define m0 where "m0 = UnionKVIter_zero\<lparr>limit := lim\<rparr>"
  have m0: "err m0 = None" "limit m0 = lim" by (simp_all add: m0_def UnionKVIter_zero_def)
  from union_advanceX_base [OF assms(1) m0(1), of "BaseKV sy"] obtain sx' m1 where a:
    "UnionKVIter_advanceX (kv_pull (BaseKV sx)) (BaseKV sx, BaseKV sy, m0) = (BaseKV sx', BaseKV sy, m1)"
    "holds (xHasNext m1) (xNextK m1, xNextV m1) sx' xs" "err m1 = None" "limit m1 = limit m0"
    by blast
  from union_advanceY_base [OF assms(2) a(3), of "BaseKV sx'"] obtain sy' m2 where b:
    "UnionKVIter_advanceY (kv_pull (BaseKV sy)) (BaseKV sx', BaseKV sy, m1) = (BaseKV sx', BaseKV sy', m2)"
    "holds (yHasNext m2) (yNextK m2, yNextV m2) sy' ys" "err m2 = None" "limit m2 = limit m1"
    "xHasNext m2 = xHasNext m1" "xNextK m2 = xNextK m1" "xNextV m2 = xNextV m1"
    by blast
  have c: "UnionKV (Some (BaseKV sx)) (Some (BaseKV sy)) lim = UnionKVIter (BaseKV sx') (BaseKV sy') m2"
    unfolding UnionKV_def m0_def [symmetric] by (simp add: a(1) b(1))
  have hx: "holds (xHasNext m2) (xNextK m2, xNextV m2) sx' xs" using a(2) b(5-7) by simp
  show ?thesis
    apply (rule exI [of _ sx'], rule exI [of _ sy'], rule exI [of _ m2])
    using c hx b(2,3,4) a(4) m0(2) by simp
qed

lemma UnionKV_output:
  assumes "script sx = map Inr xs" "script sy = map Inr ys"
  shows "kv_output (UnionKV (Some (BaseKV sx)) (Some (BaseKV sy)) lim) =
           Some (take (unat lim) (union_list xs ys), None)"
proof -
  from UnionKV_base_state [OF assms, of lim] obtain sx' sy' m where c:
    "UnionKV (Some (BaseKV sx)) (Some (BaseKV sy)) lim = UnionKVIter (BaseKV sx') (BaseKV sy') m"
    and h: "holds (xHasNext m) (xNextK m, xNextV m) sx' xs"
      "holds (yHasNext m) (yNextK m, yNextV m) sy' ys" "err m = None"
    and l: "limit m = lim" by blast
  from union_drain [OF h, of "[]"] show ?thesis
    by (auto simp: kv_output_def c l)
qed

lemma UnionKV_zero_HasNext:
  assumes "script sx = map Inr xs" "script sy = map Inr ys"
  shows "\<not> fst (kv_HasNext (UnionKV (Some (BaseKV sx)) (Some (BaseKV sy)) 0))"
proof -
  from UnionKV_base_state [OF assms, of 0] obtain sx' sy' m where
    "UnionKV (Some (BaseKV sx)) (Some (BaseKV sy)) 0 = UnionKVIter (BaseKV sx') (BaseKV sy') m"
    "err m = None" "limit m = 0" by blast
  then show ?thesis by (simp add: UnionKVIter_HasNext_def)
qed

lemma union_iter_base:
  assumes "holds (xHasNext m) (xNextK m, xNextV m) sx X"
    and "holds (yHasNext m) (yNextK m, yNextV m) sy Y"
    and "err m = None" and "n \<le> length (union_list X Y)"
  shows "\<exists>sx' sy' m' X' Y'.
      ((\<lambda>s. snd (kv_Next s)) ^^ n) (UnionKVIter (BaseKV sx) (BaseKV sy) m) =
        UnionKVIter (BaseKV sx') (BaseKV sy') m'
      \<and> holds (xHasNext m') (xNextK m', xNextV m') sx' X'
      \<and> holds (yHasNext m') (yNextK m', yNextV m') sy' Y'
      \<and> err m' = None \<and> limit m' = limit m - of_nat n
      \<and> union_list X' Y' = drop n (union_list X Y)"
  using assms(4)
proof (induction n)
  case 0
  show ?case
    apply (rule exI [of _ sx], rule exI [of _ sy], rule exI [of _ m], rule exI [of _ X],
        rule exI [of _ Y])
    using assms(1-3) by simp
next
  case (Suc n)
  then have "n \<le> length (union_list X Y)" by simp
  from Suc.IH [OF this] obtain sx' sy' m' X' Y' where s:
    "((\<lambda>s. snd (kv_Next s)) ^^ n) (UnionKVIter (BaseKV sx) (BaseKV sy) m) =
        UnionKVIter (BaseKV sx') (BaseKV sy') m'"
    "holds (xHasNext m') (xNextK m', xNextV m') sx' X'"
    "holds (yHasNext m') (yNextK m', yNextV m') sy' Y'"
    "err m' = None" "limit m' = limit m - of_nat n"
    "union_list X' Y' = drop n (union_list X Y)" by blast
  have "drop n (union_list X Y) \<noteq> []" using Suc.prems by simp
  then have "union_list X' Y' \<noteq> []" using s(6) by simp
  then have ne: "X' \<noteq> [] \<or> Y' \<noteq> []" by auto
  from union_step [OF s(2) s(3) s(4) ne] obtain sx2 sy2 m2 X2 Y2 p where t:
    "kv_Next (UnionKVIter (BaseKV sx') (BaseKV sy') m') =
       ((fst p, snd p, None), UnionKVIter (BaseKV sx2) (BaseKV sy2) m2)"
    "holds (xHasNext m2) (xNextK m2, xNextV m2) sx2 X2"
    "holds (yHasNext m2) (yNextK m2, yNextV m2) sy2 Y2"
    "err m2 = None" "limit m2 = limit m' - 1"
    "union_list X' Y' = p # union_list X2 Y2" by blast
  have "drop (Suc n) (union_list X Y) = tl (drop n (union_list X Y))"
    by (simp add: drop_Suc drop_tl)
  then have d: "union_list X2 Y2 = drop (Suc n) (union_list X Y)"
    using t(6) s(6) by simp
  show ?case
    apply (rule exI [of _ sx2], rule exI [of _ sy2], rule exI [of _ m2], rule exI [of _ X2],
        rule exI [of _ Y2])
    using s(1) s(5) t(1-5) d by simp
qed

subsection \<open>A merge over two base streams\<close>

lemma merged_advanceX_base:
  assumes "script sx = map Inr xr" "err m = None"
  shows "\<exists>sx' m'. MergedKV_advanceX (kvs_pull (BaseKVS sx)) (BaseKVS sx, y, m) = (BaseKVS sx', y, m')
      \<and> holds (xHasNext m') (xNextK m', xNextV m', xStep m') sx' xr
      \<and> err m' = None \<and> limit m' = limit m
      \<and> yHasNext m' = yHasNext m \<and> yNextK m' = yNextK m \<and> yNextV m' = yNextV m"
proof -
  from kvs_pull_base [OF assms(1)] obtain s' where
    p: "kvs_pull (BaseKVS sx) =
           ((xr \<noteq> [], case xr of [] \<Rightarrow> ([], [], 0, None)
                        | p # r \<Rightarrow> (fst p, fst (snd p), snd (snd p), None)), BaseKVS s')"
    and s': "script s' = map Inr (tl xr)" by blast
  show ?thesis
    unfolding p using assms(2) s'
    by (cases xr) (auto simp: MergedKV_advanceX_def holds_def)
qed

lemma merged_advanceY_base:
  assumes "script sy = map Inr yr" "err m = None"
  shows "\<exists>sy' m'. MergedKV_advanceY (kv_pull (BaseKV sy)) (x, BaseKV sy, m) = (x, BaseKV sy', m')
      \<and> holds (yHasNext m') (yNextK m', yNextV m') sy' yr
      \<and> err m' = None \<and> limit m' = limit m
      \<and> xHasNext m' = xHasNext m \<and> xNextK m' = xNextK m \<and> xNextV m' = xNextV m
      \<and> xStep m' = xStep m"
proof -
  from kv_pull_base [OF assms(1)] obtain s' where
    p: "kv_pull (BaseKV sy) =
           ((yr \<noteq> [], case yr of [] \<Rightarrow> ([], [], None) | p # r \<Rightarrow> (fst p, snd p, None)), BaseKV s')"
    and s': "script s' = map Inr (tl yr)" by blast
  show ?thesis
    unfolding p using assms(2) s'
    by (cases yr) (auto simp: MergedKV_advanceY_def holds_def)
qed

lemma merge_step:
  assumes hx: "holds (xHasNext m) (xNextK m, xNextV m, xStep m) sx X"
    and hy: "holds (yHasNext m) (yNextK m, yNextV m) sy Y"
    and e: "err m = None" and ne: "X \<noteq> [] \<or> Y \<noteq> []"
  shows "\<exists>sx' sy' m' X' Y' p.
      kvs_Next (MergedKV (BaseKVS sx) (BaseKV sy) m) =
        ((fst p, fst (snd p), snd (snd p), None), MergedKV (BaseKVS sx') (BaseKV sy') m')
      \<and> holds (xHasNext m') (xNextK m', xNextV m', xStep m') sx' X'
      \<and> holds (yHasNext m') (yNextK m', yNextV m') sy' Y'
      \<and> err m' = None \<and> limit m' = limit m - 1
      \<and> merge_list X Y = p # merge_list X' Y'
      \<and> length X' + length Y' < length X + length Y"
proof -
  define m1 where "m1 = m\<lparr>limit := limit m - 1\<rparr>"
  have m1: "err m1 = None" "xHasNext m1 = xHasNext m" "yHasNext m1 = yHasNext m"
    "xNextK m1 = xNextK m" "xNextV m1 = xNextV m" "yNextK m1 = yNextK m" "yNextV m1 = yNextV m"
    "limit m1 = limit m - 1" "xStep m1 = xStep m"
    using e by (simp_all add: m1_def)
  have advX: "\<exists>sx' m'. MergedKV_advanceX (kvs_pull (BaseKVS sx)) (BaseKVS sx, BaseKV sy, m1)
          = (BaseKVS sx', BaseKV sy, m')
      \<and> holds (xHasNext m') (xNextK m', xNextV m', xStep m') sx' (tl X)
      \<and> holds (yHasNext m') (yNextK m', yNextV m') sy Y
      \<and> err m' = None \<and> limit m' = limit m - 1" if "xHasNext m"
  proof -
    from hx that obtain xr where X: "X = (xNextK m, xNextV m, xStep m) # xr"
      and sc: "script sx = map Inr xr"
      by (auto simp: holds_def)
    from merged_advanceX_base [OF sc m1(1), of "BaseKV sy"] hy show ?thesis
      by (auto simp: X m1)
  qed
  have advY: "\<exists>sy' m'. MergedKV_advanceY (kv_pull (BaseKV sy)) (BaseKVS sx, BaseKV sy, m1)
          = (BaseKVS sx, BaseKV sy', m')
      \<and> holds (xHasNext m') (xNextK m', xNextV m', xStep m') sx X
      \<and> holds (yHasNext m') (yNextK m', yNextV m') sy' (tl Y)
      \<and> err m' = None \<and> limit m' = limit m - 1" if "yHasNext m"
  proof -
    from hy that obtain yr where Y: "Y = (yNextK m, yNextV m) # yr" and sc: "script sy = map Inr yr"
      by (auto simp: holds_def)
    from merged_advanceY_base [OF sc m1(1), of "BaseKVS sx"] hx show ?thesis
      by (auto simp: Y m1)
  qed
  have nx: "kvs_Next (MergedKV (BaseKVS sx) (BaseKV sy) m) =
     (case (if xHasNext m \<and> yHasNext m then
            (if bytes_Compare (xNextK m) (yNextK m) \<le> 0 then
               ((xNextK m, xNextV m, xStep m, None),
                MergedKV_advanceX (kvs_pull (BaseKVS sx)) (BaseKVS sx, BaseKV sy, m1))
             else
               ((yNextK m, yNextV m, 0, None),
                MergedKV_advanceY (kv_pull (BaseKV sy)) (BaseKVS sx, BaseKV sy, m1)))
          else if xHasNext m then
            ((xNextK m, xNextV m, xStep m, None),
             MergedKV_advanceX (kvs_pull (BaseKVS sx)) (BaseKVS sx, BaseKV sy, m1))
          else
            ((yNextK m, yNextV m, 0, None),
             MergedKV_advanceY (kv_pull (BaseKV sy)) (BaseKVS sx, BaseKV sy, m1)))
      of (r, (x', y', m')) \<Rightarrow> (r, MergedKV x' y' m'))"
    using e by (simp add: MergedKV_Next_def Let_def m1_def)
  consider (emitx) "xHasNext m" "yHasNext m \<longrightarrow> bytes_Compare (xNextK m) (yNextK m) \<le> 0"
    | (emity) "yHasNext m" "xHasNext m \<longrightarrow> \<not> bytes_Compare (xNextK m) (yNextK m) \<le> 0"
    using hx hy ne by (auto simp: holds_def split: if_splits)
  then show ?thesis
  proof cases
    case emitx
    from hx emitx(1) obtain xr where X: "X = (xNextK m, xNextV m, xStep m) # xr"
      by (auto simp: holds_def)
    have ml: "merge_list X Y = (xNextK m, xNextV m, xStep m) # merge_list (tl X) Y"
      using emitx(2) hy by (cases Y) (auto simp: X holds_def split: if_splits)
    from advX [OF emitx(1)] obtain sx' m' where st:
      "MergedKV_advanceX (kvs_pull (BaseKVS sx)) (BaseKVS sx, BaseKV sy, m1) = (BaseKVS sx', BaseKV sy, m')"
      "holds (xHasNext m') (xNextK m', xNextV m', xStep m') sx' (tl X)"
      "holds (yHasNext m') (yNextK m', yNextV m') sy Y"
      "err m' = None" "limit m' = limit m - 1" by blast
    show ?thesis
      unfolding nx
      apply (rule exI [of _ sx'], rule exI [of _ sy], rule exI [of _ m'], rule exI [of _ "tl X"],
          rule exI [of _ Y], rule exI [of _ "(xNextK m, xNextV m, xStep m)"])
      using st emitx ml by (simp add: X)
  next
    case emity
    from hy emity(1) obtain yr where Y: "Y = (yNextK m, yNextV m) # yr"
      by (auto simp: holds_def)
    have ml: "merge_list X Y = (yNextK m, yNextV m, 0) # merge_list X (tl Y)"
      using emity(2) hx by (cases X) (auto simp: Y holds_def split: if_splits)
    from advY [OF emity(1)] obtain sy' m' where st:
      "MergedKV_advanceY (kv_pull (BaseKV sy)) (BaseKVS sx, BaseKV sy, m1) = (BaseKVS sx, BaseKV sy', m')"
      "holds (xHasNext m') (xNextK m', xNextV m', xStep m') sx X"
      "holds (yHasNext m') (yNextK m', yNextV m') sy' (tl Y)"
      "err m' = None" "limit m' = limit m - 1" by blast
    show ?thesis
      unfolding nx
      apply (rule exI [of _ sx], rule exI [of _ sy'], rule exI [of _ m'], rule exI [of _ X],
          rule exI [of _ "tl Y"], rule exI [of _ "(yNextK m, yNextV m, 0)"])
      using st emity ml by (auto simp: Y)
  qed
qed

lemma merge_drain:
  assumes "holds (xHasNext m) (xNextK m, xNextV m, xStep m) sx X"
    and "holds (yHasNext m) (yNextK m, yNextV m) sy Y"
    and "err m = None"
  shows "\<exists>t'. kvs_drain acc (MergedKV (BaseKVS sx) (BaseKV sy) m) =
           Some (acc @ take (unat (limit m)) (merge_list X Y), None, t')"
  using assms
proof (induction "length X + length Y" arbitrary: X Y m sx sy acc rule: less_induct)
  case less
  let ?t = "MergedKV (BaseKVS sx) (BaseKV sy) m"
  have hn: "MergedKV_HasNext m \<longleftrightarrow> limit m \<noteq> 0 \<and> (X \<noteq> [] \<or> Y \<noteq> [])"
    using holds_nonempty [OF less.prems(1)] holds_nonempty [OF less.prems(2)] less.prems(3)
    by (auto simp: MergedKV_HasNext_def)
  show ?case
  proof (cases "MergedKV_HasNext m")
    case False
    then have "take (unat (limit m)) (merge_list X Y) = []"
      using hn by auto
    then show ?thesis
      using False by (subst kvs_drain.simps) simp
  next
    case True
    then have ne: "X \<noteq> [] \<or> Y \<noteq> []" and l0: "limit m \<noteq> 0" using hn by auto
    from merge_step [OF less.prems ne] obtain sx' sy' m' X' Y' p where st:
      "kvs_Next ?t = ((fst p, fst (snd p), snd (snd p), None), MergedKV (BaseKVS sx') (BaseKV sy') m')"
      "holds (xHasNext m') (xNextK m', xNextV m', xStep m') sx' X'"
      "holds (yHasNext m') (yNextK m', yNextV m') sy' Y'"
      "err m' = None" "limit m' = limit m - 1"
      "merge_list X Y = p # merge_list X' Y'"
      "length X' + length Y' < length X + length Y" by blast
    from less.hyps [OF st(7) st(2) st(3) st(4), of "acc @ [p]"] obtain t' where
      "kvs_drain (acc @ [p]) (MergedKV (BaseKVS sx') (BaseKV sy') m') =
         Some ((acc @ [p]) @ take (unat (limit m')) (merge_list X' Y'), None, t')" by blast
    then have "kvs_drain acc ?t =
         Some ((acc @ [p]) @ take (unat (limit m')) (merge_list X' Y'), None, t')"
      using True st(1) by (subst kvs_drain.simps) simp
    then show ?thesis
      by (simp add: st(5) st(6) take_unat_Cons [OF l0])
  qed
qed

lemma MergeKVS_base_state:
  assumes "script sx = map Inr xs" "script sy = map Inr ys"
  shows "\<exists>sx' sy' m. MergeKVS (Some (BaseKVS sx)) (Some (BaseKV sy)) lim
             = MergedKV (BaseKVS sx') (BaseKV sy') m
      \<and> holds (xHasNext m) (xNextK m, xNextV m, xStep m) sx' xs
      \<and> holds (yHasNext m) (yNextK m, yNextV m) sy' ys
      \<and> err m = None \<and> limit m = lim"
proof -
  define m0 where "m0 = MergedKV_zero\<lparr>limit := lim\<rparr>"
  have m0: "err m0 = None" "limit m0 = lim" by (simp_all add: m0_def MergedKV_zero_def)
  from merged_advanceX_base [OF assms(1) m0(1), of "BaseKV sy"] obtain sx' m1 where a:
    "MergedKV_advanceX (kvs_pull (BaseKVS sx)) (BaseKVS sx, BaseKV sy, m0) = (BaseKVS sx', BaseKV sy, m1)"
    "holds (xHasNext m1) (xNextK m1, xNextV m1, xStep m1) sx' xs" "err m1 = None" "limit m1 = limit m0"
    by blast
  from merged_advanceY_base [OF assms(2) a(3), of "BaseKVS sx'"] obtain sy' m2 where b:
    "MergedKV_advanceY (kv_pull (BaseKV sy)) (BaseKVS sx', BaseKV sy, m1) = (BaseKVS sx', BaseKV sy', m2)"
    "holds (yHasNext m2) (yNextK m2, yNextV m2) sy' ys" "err m2 = None" "limit m2 = limit m1"
    "xHasNext m2 = xHasNext m1" "xNextK m2 = xNextK m1" "xNextV m2 = xNextV m1" "xStep m2 = xStep m1"
    by blast
  have c: "MergeKVS (Some (BaseKVS sx)) (Some (BaseKV sy)) lim = MergedKV (BaseKVS sx') (BaseKV sy') m2"
    unfolding MergeKVS_def m0_def [symmetric] by (simp add: a(1) b(1))
  have hx: "holds (xHasNext m2) (xNextK m2, xNextV m2, xStep m2) sx' xs" using a(2) b(5-8) by simp
  show ?thesis
    apply (rule exI [of _ sx'], rule exI [of _ sy'], rule exI [of _ m2])
    using c hx b(2,3,4) a(4) m0(2) by simp
qed

lemma MergeKVS_output:
  assumes "script sx = map Inr xs" "script sy = map Inr ys"
  shows "kvs_output (MergeKVS (Some (BaseKVS sx)) (Some (BaseKV sy)) lim) =
           Some (take (unat lim) (merge_list xs ys), None)"
proof -
  from MergeKVS_base_state [OF assms, of lim] obtain sx' sy' m where c:
    "MergeKVS (Some (BaseKVS sx)) (Some (BaseKV sy)) lim = MergedKV (BaseKVS sx') (BaseKV sy') m"
    and h: "holds (xHasNext m) (xNextK m, xNextV m, xStep m) sx' xs"
      "holds (yHasNext m) (yNextK m, yNextV m) sy' ys" "err m = None"
    and l: "limit m = lim" by blast
  from merge_drain [OF h, of "[]"] show ?thesis
    by (auto simp: kvs_output_def c l)
qed

lemma MergeKVS_zero_HasNext:
  assumes "script sx = map Inr xs" "script sy = map Inr ys"
  shows "\<not> fst (kvs_HasNext (MergeKVS (Some (BaseKVS sx)) (Some (BaseKV sy)) 0))"
proof -
  from MergeKVS_base_state [OF assms, of 0] obtain sx' sy' m where
    "MergeKVS (Some (BaseKVS sx)) (Some (BaseKV sy)) 0 = MergedKV (BaseKVS sx') (BaseKV sy') m"
    "err m = None" "limit m = 0" by blast
  then show ?thesis by (simp add: MergedKV_HasNext_def)
qed

subsection \<open>A lift over a base stream\<close>

lemma wrapkvs_advance_base:
  assumes "script sy = map Inr yr" "WrapKVSIter_fields.err m = None"
  shows "\<exists>sy' m'. WrapKVSIter_advance (kv_pull (BaseKV sy)) (BaseKV sy, m) = (BaseKV sy', m')
      \<and> holds (WrapKVSIter_fields.yHasNext m')
           (WrapKVSIter_fields.yNextK m', WrapKVSIter_fields.yNextV m') sy' yr
      \<and> WrapKVSIter_fields.err m' = None"
proof -
  from kv_pull_base [OF assms(1)] obtain s' where
    p: "kv_pull (BaseKV sy) =
           ((yr \<noteq> [], case yr of [] \<Rightarrow> ([], [], None) | p # r \<Rightarrow> (fst p, snd p, None)), BaseKV s')"
    and s': "script s' = map Inr (tl yr)" by blast
  show ?thesis
    unfolding p using assms(2) s'
    by (cases yr) (auto simp: WrapKVSIter_advance_def holds_def)
qed

lemma wrapkvs_drain:
  assumes "holds (WrapKVSIter_fields.yHasNext m)
             (WrapKVSIter_fields.yNextK m, WrapKVSIter_fields.yNextV m) sy Y"
    and "WrapKVSIter_fields.err m = None"
  shows "\<exists>t'. kvs_drain acc (WrapKVSIter (BaseKV sy) m) =
           Some (acc @ map (\<lambda>(k, v). (k, v, 0)) Y, None, t')"
  using assms
proof (induction Y arbitrary: m sy acc)
  case Nil
  then have "\<not> WrapKVSIter_HasNext m"
    using holds_nonempty [OF Nil(1)] by (simp add: WrapKVSIter_HasNext_def)
  then show ?case by (subst kvs_drain.simps) simp
next
  case (Cons p Y)
  from Cons.prems(1) have h: "WrapKVSIter_fields.yHasNext m"
    and p: "p = (WrapKVSIter_fields.yNextK m, WrapKVSIter_fields.yNextV m)"
    and sc: "script sy = map Inr Y"
    by (auto simp: holds_def split: if_splits)
  from wrapkvs_advance_base [OF sc Cons.prems(2)] obtain sy' m' where a:
    "WrapKVSIter_advance (kv_pull (BaseKV sy)) (BaseKV sy, m) = (BaseKV sy', m')"
    "holds (WrapKVSIter_fields.yHasNext m')
       (WrapKVSIter_fields.yNextK m', WrapKVSIter_fields.yNextV m') sy' Y"
    "WrapKVSIter_fields.err m' = None" by blast
  from Cons.IH [OF a(2) a(3), of "acc @ [(fst p, snd p, 0)]"] obtain t' where
    "kvs_drain (acc @ [(fst p, snd p, 0)]) (WrapKVSIter (BaseKV sy') m') =
       Some ((acc @ [(fst p, snd p, 0)]) @ map (\<lambda>(k, v). (k, v, 0)) Y, None, t')" by blast
  then have "kvs_drain acc (WrapKVSIter (BaseKV sy) m) =
       Some ((acc @ [(fst p, snd p, 0)]) @ map (\<lambda>(k, v). (k, v, 0)) Y, None, t')"
    using h Cons.prems(2) a(1)
    by (subst kvs_drain.simps) (simp add: WrapKVSIter_HasNext_def WrapKVSIter_Next_def p)
  then show ?case by (simp add: p)
qed

lemma WrapKVS_output:
  assumes "script sy = map Inr ys"
  shows "kvs_output (WrapKVS (Some (BaseKV sy))) = Some (map (\<lambda>(k, v). (k, v, 0)) ys, None)"
proof -
  have e: "WrapKVSIter_fields.err WrapKVSIter_zero = None" by (simp add: WrapKVSIter_zero_def)
  from wrapkvs_advance_base [OF assms e] obtain sy' m' where a:
    "WrapKVSIter_advance (kv_pull (BaseKV sy)) (BaseKV sy, WrapKVSIter_zero) = (BaseKV sy', m')"
    "holds (WrapKVSIter_fields.yHasNext m')
       (WrapKVSIter_fields.yNextK m', WrapKVSIter_fields.yNextV m') sy' ys"
    "WrapKVSIter_fields.err m' = None" by blast
  from wrapkvs_drain [OF a(2) a(3), of "[]"] show ?thesis
    by (auto simp: kvs_output_def WrapKVS_def a(1))
qed

subsection \<open>The limit under Next, for any children\<close>

lemma union_advanceX_limit:
  "\<exists>x' m'. UnionKVIter_advanceX px (x, y, m) = (x', y, m') \<and> limit m' = limit m"
  by (cases px) (auto simp: UnionKVIter_advanceX_def split: prod.splits)

lemma union_advanceY_limit:
  "\<exists>y' m'. UnionKVIter_advanceY py (x, y, m) = (x, y', m') \<and> limit m' = limit m"
  by (cases py) (auto simp: UnionKVIter_advanceY_def split: prod.splits)

lemma merged_advanceX_limit:
  "\<exists>x' m'. MergedKV_advanceX px (x, y, m) = (x', y, m') \<and> limit m' = limit m"
  by (cases px) (auto simp: MergedKV_advanceX_def split: prod.splits)

lemma merged_advanceY_limit:
  "\<exists>y' m'. MergedKV_advanceY py (x, y, m) = (x, y', m') \<and> limit m' = limit m"
  by (cases py) (auto simp: MergedKV_advanceY_def split: prod.splits)

lemma union_Next_limit:
  "\<exists>r x' y' m'. kv_Next (UnionKVIter x y m) = (r, UnionKVIter x' y' m')
     \<and> limit m' = (if err m = None then limit m - 1 else limit m)"
proof (cases "err m = None")
  case False
  then show ?thesis by (simp add: UnionKVIter_Next_def)
next
  case True
  define m1 where "m1 = m\<lparr>limit := limit m - 1\<rparr>"
  obtain x1 mx where ax: "UnionKVIter_advanceX (kv_pull x) (x, y, m1)= (x1, y, mx)"
    "limit mx = limit m1" using union_advanceX_limit [of "kv_pull x" x y m1] by blast
  obtain y1 my where ay: "UnionKVIter_advanceY (kv_pull y) (x, y, m1)= (x, y1, my)"
    "limit my = limit m1" using union_advanceY_limit [of "kv_pull y" x y m1] by blast
  obtain y2 mxy where axy: "UnionKVIter_advanceY (kv_pull y) (x1, y, mx)= (x1, y2, mxy)"
    "limit mxy = limit mx" using union_advanceY_limit [of "kv_pull y" x1 y mx] by blast
  have l: "limit m1 = limit m - 1" by (simp add: m1_def)
  show ?thesis
    using True ax ay axy l
    by (simp add: UnionKVIter_Next_def Let_def flip: m1_def)
qed

lemma merged_Next_limit:
  "\<exists>r x' y' m'. kvs_Next (MergedKV x y m) = (r, MergedKV x' y' m')
     \<and> limit m' = (if err m = None then limit m - 1 else limit m)"
proof (cases "err m = None")
  case False
  then show ?thesis by (simp add: MergedKV_Next_def)
next
  case True
  define m1 where "m1 = m\<lparr>limit := limit m - 1\<rparr>"
  obtain x1 mx where ax: "MergedKV_advanceX (kvs_pull x) (x, y, m1)= (x1, y, mx)"
    "limit mx = limit m1" using merged_advanceX_limit [of "kvs_pull x" x y m1] by blast
  obtain y1 my where ay: "MergedKV_advanceY (kv_pull y) (x, y, m1)= (x, y1, my)"
    "limit my = limit m1" using merged_advanceY_limit [of "kv_pull y" x y m1] by blast
  have l: "limit m1 = limit m - 1" by (simp add: m1_def)
  show ?thesis
    using True ax ay l
    by (simp add: MergedKV_Next_def Let_def flip: m1_def)
qed

lemma union_iter_limit:
  "\<exists>x' y' m' j. ((\<lambda>s. snd (kv_Next s)) ^^ n) (UnionKVIter x y m) = UnionKVIter x' y' m'
     \<and> j \<le> n \<and> limit m' = limit m - of_nat j"
proof (induction n)
  case 0
  show ?case by (rule exI [of _ x], rule exI [of _ y], rule exI [of _ m], rule exI [of _ 0]) simp
next
  case (Suc n)
  then obtain x' y' m' j where s: "((\<lambda>s. snd (kv_Next s)) ^^ n) (UnionKVIter x y m) = UnionKVIter x' y' m'"
    "j \<le> n" "limit m' = limit m - of_nat j" by blast
  from union_Next_limit [of x' y' m'] obtain r x2 y2 m2 where
    t: "kv_Next (UnionKVIter x' y' m') = (r, UnionKVIter x2 y2 m2)"
    "limit m2 = (if err m' = None then limit m' - 1 else limit m')" by blast
  show ?case
  proof (cases "err m' = None")
    case True
    show ?thesis
      apply (rule exI [of _ x2], rule exI [of _ y2], rule exI [of _ m2], rule exI [of _ "Suc j"])
      using s t True by simp
  next
    case False
    show ?thesis
      apply (rule exI [of _ x2], rule exI [of _ y2], rule exI [of _ m2], rule exI [of _ j])
      using s t False by simp
  qed
qed

lemma merged_iter_limit:
  "\<exists>x' y' m' j. ((\<lambda>s. snd (kvs_Next s)) ^^ n) (MergedKV x y m) = MergedKV x' y' m'
     \<and> j \<le> n \<and> limit m' = limit m - of_nat j"
proof (induction n)
  case 0
  show ?case by (rule exI [of _ x], rule exI [of _ y], rule exI [of _ m], rule exI [of _ 0]) simp
next
  case (Suc n)
  then obtain x' y' m' j where s: "((\<lambda>s. snd (kvs_Next s)) ^^ n) (MergedKV x y m) = MergedKV x' y' m'"
    "j \<le> n" "limit m' = limit m - of_nat j" by blast
  from merged_Next_limit [of x' y' m'] obtain r x2 y2 m2 where
    t: "kvs_Next (MergedKV x' y' m') = (r, MergedKV x2 y2 m2)"
    "limit m2 = (if err m' = None then limit m' - 1 else limit m')" by blast
  show ?case
  proof (cases "err m' = None")
    case True
    show ?thesis
      apply (rule exI [of _ x2], rule exI [of _ y2], rule exI [of _ m2], rule exI [of _ "Suc j"])
      using s t True by simp
  next
    case False
    show ?thesis
      apply (rule exI [of _ x2], rule exI [of _ y2], rule exI [of _ m2], rule exI [of _ j])
      using s t False by simp
  qed
qed

lemma UnionKV_limit:
  "\<exists>x' y' m'. UnionKV (Some x) (Some y) lim = UnionKVIter x' y' m' \<and> limit m' = lim"
proof -
  define m0 where "m0 = UnionKVIter_zero\<lparr>limit := lim\<rparr>"
  obtain x1 mx where ax: "UnionKVIter_advanceX (kv_pull x) (x, y, m0)= (x1, y, mx)"
    "limit mx = limit m0" using union_advanceX_limit [of "kv_pull x" x y m0] by blast
  obtain y2 mxy where axy: "UnionKVIter_advanceY (kv_pull y) (x1, y, mx)= (x1, y2, mxy)"
    "limit mxy = limit mx" using union_advanceY_limit [of "kv_pull y" x1 y mx] by blast
  show ?thesis using ax axy by (simp add: UnionKV_def m0_def)
qed

lemma MergeKVS_limit:
  "\<exists>x' y' m'. MergeKVS (Some x) (Some y) lim = MergedKV x' y' m' \<and> limit m' = lim"
proof -
  define m0 where "m0 = MergedKV_zero\<lparr>limit := lim\<rparr>"
  obtain x1 mx where ax: "MergedKV_advanceX (kvs_pull x) (x, y, m0)= (x1, y, mx)"
    "limit mx = limit m0" using merged_advanceX_limit [of "kvs_pull x" x y m0] by blast
  obtain y2 mxy where axy: "MergedKV_advanceY (kv_pull y) (x1, y, mx)= (x1, y2, mxy)"
    "limit mxy = limit mx" using merged_advanceY_limit [of "kv_pull y" x1 y mx] by blast
  show ?thesis using ax axy by (simp add: MergeKVS_def m0_def)
qed

subsection \<open>What a constructor does to its children\<close>

lemma UnionKV_children:
  "\<exists>m. UnionKV (Some x) (Some y) lim =
     UnionKVIter (snd (kv_pull x))
       (if kv_pull_err (kv_pull x) = None then snd (kv_pull y) else y) m"
proof -
  obtain h k v e x' where p: "kv_pull x = ((h, k, v, e), x')" by (cases "kv_pull x") auto
  obtain hy ky vy ey y' where q: "kv_pull y = ((hy, ky, vy, ey), y')" by (cases "kv_pull y") auto
  have n: "\<not> h \<Longrightarrow> e = None" using kv_pull_err_False [of x] by (simp add: p kv_pull_err_def)
  show ?thesis
  proof (cases h)
    case True
    then show ?thesis
      by (cases "e = None"; cases hy)
         (auto simp: UnionKV_def UnionKVIter_advanceX_def UnionKVIter_advanceY_def p q
            kv_pull_err_def UnionKVIter_zero_def)
  next
    case False
    with n have "e = None" by simp
    with False show ?thesis
      by (cases hy)
         (simp_all add: UnionKV_def UnionKVIter_advanceX_def UnionKVIter_advanceY_def p q
            kv_pull_err_def UnionKVIter_zero_def)
  qed
qed

lemma MergeKVS_children:
  "\<exists>m. MergeKVS (Some xx) (Some y) lim =
     MergedKV (snd (kvs_pull xx))
       (if kvs_pull_err (kvs_pull xx) = None then snd (kv_pull y) else y) m"
proof -
  obtain h k v st e x' where p: "kvs_pull xx = ((h, k, v, st, e), x')"
    by (cases "kvs_pull xx") auto
  obtain hy ky vy ey y' where q: "kv_pull y = ((hy, ky, vy, ey), y')" by (cases "kv_pull y") auto
  have n: "\<not> h \<Longrightarrow> e = None" using kvs_pull_err_False [of xx] by (simp add: p kvs_pull_err_def)
  show ?thesis
  proof (cases h)
    case True
    then show ?thesis
      by (cases "e = None"; cases hy)
         (auto simp: MergeKVS_def MergedKV_advanceX_def MergedKV_advanceY_def p q
            kvs_pull_err_def MergedKV_zero_def)
  next
    case False
    with n have "e = None" by simp
    with False show ?thesis
      by (cases hy)
         (simp_all add: MergeKVS_def MergedKV_advanceX_def MergedKV_advanceY_def p q
            kvs_pull_err_def MergedKV_zero_def)
  qed
qed

lemma WrapKVS_child: "\<exists>m. WrapKVS (Some y) = WrapKVSIter (snd (kv_pull y)) m"
proof -
  obtain hy ky vy ey y' where q: "kv_pull y = ((hy, ky, vy, ey), y')" by (cases "kv_pull y") auto
  show ?thesis
    by (cases hy) (simp_all add: WrapKVS_def WrapKVSIter_advance_def WrapKVSIter_zero_def q)
qed

lemma WrapKV_child: "\<exists>m. WrapKV (Some xx) = WrapKVIter (snd (kvs_pull xx)) m"
proof -
  obtain h k v st e x' where p: "kvs_pull xx = ((h, k, v, st, e), x')"
    by (cases "kvs_pull xx") auto
  show ?thesis
    by (cases h) (simp_all add: WrapKV_def WrapKVIter_advance_def WrapKVIter_zero_def p)
qed

subsection \<open>Latched errors\<close>

lemma kv_latched_Next:
  "kv_err t = Some e \<Longrightarrow> kv_Next t = (([], [], Some e), t) \<and> kv_HasNext t = (True, t)"
  by (cases t)
     (simp_all add: UnionKVIter_Next_def WrapKVIter_Next_def UnionKVIter_HasNext_def
        WrapKVIter_HasNext_def)

lemma kvs_latched_Next:
  "kvs_err t = Some e \<Longrightarrow> kvs_Next t = (([], [], 0, Some e), t) \<and> kvs_HasNext t = (True, t)"
  by (cases t)
     (simp_all add: MergedKV_Next_def WrapKVSIter_Next_def MergedKV_HasNext_def
        WrapKVSIter_HasNext_def)

lemma kv_latched_funpow:
  "kv_err t = Some e \<Longrightarrow> ((\<lambda>s. snd (kv_Next s)) ^^ n) t = t"
  by (induction n) (simp_all add: kv_latched_Next)

lemma kvs_latched_funpow:
  "kvs_err t = Some e \<Longrightarrow> ((\<lambda>s. snd (kvs_Next s)) ^^ n) t = t"
  by (induction n) (simp_all add: kvs_latched_Next)

subsection \<open>Close\<close>

lemma closed_once_append: "closed_once (as @ bs) = closed_once as @ closed_once bs"
  by (simp add: closed_once_def)

lemma bases_Close:
  "kv_bases (kv_Close t) = closed_once (kv_bases t)"
  "kvs_bases (kvs_Close u) = closed_once (kvs_bases u)"
  by (induction t and u)
     (simp_all add: closed_once_append, simp_all add: closed_once_def src_Close_def)

subsection \<open>The error a step latches\<close>

lemma union_advanceX_pull:
  assumes "err m = None"
  shows "\<exists>m'. UnionKVIter_advanceX (kv_pull x) (x, y, m) = (snd (kv_pull x), y, m')
           \<and> err m' = kv_pull_err (kv_pull x)"
proof -
  obtain h k v e x' where p: "kv_pull x = ((h, k, v, e), x')" by (cases "kv_pull x") auto
  have "\<not> h \<Longrightarrow> e = None" using kv_pull_err_False [of x] by (simp add: p kv_pull_err_def)
  then show ?thesis
    using assms by (cases h) (simp_all add: UnionKVIter_advanceX_def p kv_pull_err_def)
qed

lemma union_advanceY_pull:
  assumes "err m = None"
  shows "\<exists>m'. UnionKVIter_advanceY (kv_pull y) (x, y, m) = (x, snd (kv_pull y), m')
           \<and> err m' = kv_pull_err (kv_pull y)"
proof -
  obtain h k v e y' where p: "kv_pull y = ((h, k, v, e), y')" by (cases "kv_pull y") auto
  have "\<not> h \<Longrightarrow> e = None" using kv_pull_err_False [of y] by (simp add: p kv_pull_err_def)
  then show ?thesis
    using assms by (cases h) (simp_all add: UnionKVIter_advanceY_def p kv_pull_err_def)
qed

lemma merged_advanceX_pull:
  assumes "err m = None"
  shows "\<exists>m'. MergedKV_advanceX (kvs_pull x) (x, y, m) = (snd (kvs_pull x), y, m')
           \<and> err m' = kvs_pull_err (kvs_pull x)"
proof -
  obtain h k v st e x' where p: "kvs_pull x = ((h, k, v, st, e), x')"
    by (cases "kvs_pull x") auto
  have "\<not> h \<Longrightarrow> e = None" using kvs_pull_err_False [of x] by (simp add: p kvs_pull_err_def)
  then show ?thesis
    using assms by (cases h) (simp_all add: MergedKV_advanceX_def p kvs_pull_err_def)
qed

lemma merged_advanceY_pull:
  assumes "err m = None"
  shows "\<exists>m'. MergedKV_advanceY (kv_pull y) (x, y, m) = (x, snd (kv_pull y), m')
           \<and> err m' = kv_pull_err (kv_pull y)"
proof -
  obtain h k v e y' where p: "kv_pull y = ((h, k, v, e), y')" by (cases "kv_pull y") auto
  have "\<not> h \<Longrightarrow> e = None" using kv_pull_err_False [of y] by (simp add: p kv_pull_err_def)
  then show ?thesis
    using assms by (cases h) (simp_all add: MergedKV_advanceY_def p kv_pull_err_def)
qed

lemma wrapkvs_advance_pull:
  assumes "WrapKVSIter_fields.err m = None"
  shows "\<exists>m'. WrapKVSIter_advance (kv_pull y) (y, m) = (snd (kv_pull y), m')
           \<and> WrapKVSIter_fields.err m' = kv_pull_err (kv_pull y)"
proof -
  obtain h k v e y' where p: "kv_pull y = ((h, k, v, e), y')" by (cases "kv_pull y") auto
  have "\<not> h \<Longrightarrow> e = None" using kv_pull_err_False [of y] by (simp add: p kv_pull_err_def)
  then show ?thesis
    using assms by (cases h) (simp_all add: WrapKVSIter_advance_def p kv_pull_err_def)
qed

lemma wrapkv_advance_pull:
  assumes "WrapKVIter_fields.err m = None"
  shows "\<exists>m'. WrapKVIter_advance (kvs_pull x) (x, m) = (snd (kvs_pull x), m')
           \<and> WrapKVIter_fields.err m' = kvs_pull_err (kvs_pull x)"
proof -
  obtain h k v st e x' where p: "kvs_pull x = ((h, k, v, st, e), x')"
    by (cases "kvs_pull x") auto
  have "\<not> h \<Longrightarrow> e = None" using kvs_pull_err_False [of x] by (simp add: p kvs_pull_err_def)
  then show ?thesis
    using assms by (cases h) (simp_all add: WrapKVIter_advance_def p kvs_pull_err_def)
qed

text \<open>The error that the pulls of one \<^verbatim>\<open>Next\<close> of a union answer.\<close>

lemma union_Next_err:
  assumes "err m = None"
  shows "kv_err (snd (kv_Next (UnionKVIter x y m))) =
     (if xHasNext m \<and> yHasNext m then
        (if bytes_Compare (xNextK m) (yNextK m) < 0 then kv_pull_err (kv_pull x)
         else if bytes_Compare (xNextK m) (yNextK m) = 0 then
           (if kv_pull_err (kv_pull x) \<noteq> None then kv_pull_err (kv_pull x)
            else kv_pull_err (kv_pull y))
         else kv_pull_err (kv_pull y))
      else if xHasNext m then kv_pull_err (kv_pull x)
      else kv_pull_err (kv_pull y))
    \<and> snd (snd (fst (kv_Next (UnionKVIter x y m)))) = None"
proof -
  define m1 where "m1 = m\<lparr>limit := limit m - 1\<rparr>"
  have e1: "err m1 = None" using assms by (simp add: m1_def)
  obtain mx where ax: "UnionKVIter_advanceX (kv_pull x) (x, y, m1) = (snd (kv_pull x), y, mx)"
    "err mx = kv_pull_err (kv_pull x)" using union_advanceX_pull [OF e1, of x y] by blast
  obtain my where ay: "UnionKVIter_advanceY (kv_pull y) (x, y, m1) = (x, snd (kv_pull y), my)"
    "err my = kv_pull_err (kv_pull y)" using union_advanceY_pull [OF e1, of y x] by blast
  have axy: "kv_err (case UnionKVIter_advanceY (kv_pull y) (snd (kv_pull x), y, mx) of
        (a, b, m') \<Rightarrow> UnionKVIter a b m')
      = (if kv_pull_err (kv_pull x) \<noteq> None then kv_pull_err (kv_pull x)
         else kv_pull_err (kv_pull y))"
  proof (cases "err mx = None")
    case True
    obtain mxy where "UnionKVIter_advanceY (kv_pull y) (snd (kv_pull x), y, mx)
        = (snd (kv_pull x), snd (kv_pull y), mxy)" "err mxy = kv_pull_err (kv_pull y)"
      using union_advanceY_pull [OF True, of y "snd (kv_pull x)"] by blast
    then show ?thesis using True ax(2) by simp
  next
    case False
    then show ?thesis using ax(2) by (simp add: UnionKVIter_advanceY_def)
  qed
  have nx: "kv_Next (UnionKVIter x y m) =
     (case (if xHasNext m \<and> yHasNext m then
            (if bytes_Compare (xNextK m) (yNextK m) < 0 then
               ((xNextK m, xNextV m, None), UnionKVIter_advanceX (kv_pull x) (x, y, m1))
             else if bytes_Compare (xNextK m) (yNextK m) = 0 then
               ((xNextK m, xNextV m, None),
                UnionKVIter_advanceY (kv_pull y) (UnionKVIter_advanceX (kv_pull x) (x, y, m1)))
             else
               ((yNextK m, yNextV m, None), UnionKVIter_advanceY (kv_pull y) (x, y, m1)))
          else if xHasNext m then
            ((xNextK m, xNextV m, None), UnionKVIter_advanceX (kv_pull x) (x, y, m1))
          else
            ((yNextK m, yNextV m, None), UnionKVIter_advanceY (kv_pull y) (x, y, m1)))
      of (r, (x', y', m')) \<Rightarrow> (r, UnionKVIter x' y' m'))"
    using assms by (simp add: UnionKVIter_Next_def Let_def m1_def)
  consider (lt) "xHasNext m" "yHasNext m" "bytes_Compare (xNextK m) (yNextK m) < 0"
    | (eq) "xHasNext m" "yHasNext m" "bytes_Compare (xNextK m) (yNextK m) = 0"
    | (gt) "xHasNext m" "yHasNext m" "\<not> bytes_Compare (xNextK m) (yNextK m) < 0"
        "bytes_Compare (xNextK m) (yNextK m) \<noteq> 0"
    | (xonly) "xHasNext m" "\<not> yHasNext m"
    | (yonly) "\<not> xHasNext m"
    by blast
  then show ?thesis
  proof cases
    case lt
    then show ?thesis unfolding nx by (simp add: ax)
  next
    case eq
    then show ?thesis unfolding nx using axy by (simp add: ax(1) split: prod.splits)
  next
    case gt
    then show ?thesis unfolding nx by (simp add: ay)
  next
    case xonly
    then show ?thesis unfolding nx by (simp add: ax)
  next
    case yonly
    then show ?thesis unfolding nx by (simp add: ay)
  qed
qed


lemma merged_Next_err:
  assumes "err m = None"
  shows "kvs_err (snd (kvs_Next (MergedKV x y m))) =
     (if xHasNext m \<and> yHasNext m then
        (if bytes_Compare (xNextK m) (yNextK m) \<le> 0 then kvs_pull_err (kvs_pull x)
         else kv_pull_err (kv_pull y))
      else if xHasNext m then kvs_pull_err (kvs_pull x)
      else kv_pull_err (kv_pull y))
    \<and> snd (snd (snd (fst (kvs_Next (MergedKV x y m))))) = None"
proof -
  define m1 where "m1 = m\<lparr>limit := limit m - 1\<rparr>"
  have e1: "err m1 = None" using assms by (simp add: m1_def)
  obtain mx where ax: "MergedKV_advanceX (kvs_pull x) (x, y, m1) = (snd (kvs_pull x), y, mx)"
    "err mx = kvs_pull_err (kvs_pull x)" using merged_advanceX_pull [OF e1, of x y] by blast
  obtain my where ay: "MergedKV_advanceY (kv_pull y) (x, y, m1) = (x, snd (kv_pull y), my)"
    "err my = kv_pull_err (kv_pull y)" using merged_advanceY_pull [OF e1, of y x] by blast
  have nx: "kvs_Next (MergedKV x y m) =
     (case (if xHasNext m \<and> yHasNext m then
            (if bytes_Compare (xNextK m) (yNextK m) \<le> 0 then
               ((xNextK m, xNextV m, xStep m, None), MergedKV_advanceX (kvs_pull x) (x, y, m1))
             else
               ((yNextK m, yNextV m, 0, None), MergedKV_advanceY (kv_pull y) (x, y, m1)))
          else if xHasNext m then
            ((xNextK m, xNextV m, xStep m, None), MergedKV_advanceX (kvs_pull x) (x, y, m1))
          else
            ((yNextK m, yNextV m, 0, None), MergedKV_advanceY (kv_pull y) (x, y, m1)))
      of (r, (x', y', m')) \<Rightarrow> (r, MergedKV x' y' m'))"
    using assms by (simp add: MergedKV_Next_def Let_def m1_def)
  consider (le) "xHasNext m" "yHasNext m" "bytes_Compare (xNextK m) (yNextK m) \<le> 0"
    | (gt) "xHasNext m" "yHasNext m" "\<not> bytes_Compare (xNextK m) (yNextK m) \<le> 0"
    | (xonly) "xHasNext m" "\<not> yHasNext m"
    | (yonly) "\<not> xHasNext m"
    by blast
  then show ?thesis
  proof cases
    case le
    then show ?thesis unfolding nx by (simp add: ax)
  next
    case gt
    then show ?thesis unfolding nx by (simp add: ay)
  next
    case xonly
    then show ?thesis unfolding nx by (simp add: ax)
  next
    case yonly
    then show ?thesis unfolding nx by (simp add: ay)
  qed
qed

lemma wrapkvs_Next_err:
  assumes "WrapKVSIter_fields.err m = None"
  shows "kvs_err (snd (kvs_Next (WrapKVSIter y m))) = kv_pull_err (kv_pull y)
    \<and> snd (snd (snd (fst (kvs_Next (WrapKVSIter y m))))) = None"
proof -
  obtain m' where "WrapKVSIter_advance (kv_pull y) (y, m) = (snd (kv_pull y), m')"
    "WrapKVSIter_fields.err m' = kv_pull_err (kv_pull y)"
    using wrapkvs_advance_pull [OF assms, of y] by blast
  then show ?thesis using assms by (simp add: WrapKVSIter_Next_def)
qed

lemma wrapkv_Next_err:
  assumes "WrapKVIter_fields.err m = None"
  shows "kv_err (snd (kv_Next (WrapKVIter x m))) = kvs_pull_err (kvs_pull x)
    \<and> snd (snd (fst (kv_Next (WrapKVIter x m)))) = None"
proof -
  obtain m' where "WrapKVIter_advance (kvs_pull x) (x, m) = (snd (kvs_pull x), m')"
    "WrapKVIter_fields.err m' = kvs_pull_err (kvs_pull x)"
    using wrapkv_advance_pull [OF assms, of x] by blast
  then show ?thesis using assms by (simp add: WrapKVIter_Next_def)
qed

lemma union_Next_stops:
  assumes "err m = None" "xHasNext m" "yHasNext m" "bytes_Compare (xNextK m) (yNextK m) = 0"
    and "kv_pull_err (kv_pull x) \<noteq> None"
  shows "\<exists>m'. snd (kv_Next (UnionKVIter x y m)) = UnionKVIter (snd (kv_pull x)) y m'"
proof -
  define m1 where "m1 = m\<lparr>limit := limit m - 1\<rparr>"
  have e1: "err m1 = None" using assms(1) by (simp add: m1_def)
  obtain mx where ax: "UnionKVIter_advanceX (kv_pull x) (x, y, m1) = (snd (kv_pull x), y, mx)"
    "err mx = kv_pull_err (kv_pull x)" using union_advanceX_pull [OF e1, of x y] by blast
  have ay: "UnionKVIter_advanceY (kv_pull y) (snd (kv_pull x), y, mx) = (snd (kv_pull x), y, mx)"
    using ax(2) assms(5) by (simp add: UnionKVIter_advanceY_def)
  have "kv_Next (UnionKVIter x y m) =
      ((xNextK m, xNextV m, None),
       (case UnionKVIter_advanceY (kv_pull y) (UnionKVIter_advanceX (kv_pull x) (x, y, m1))
        of (x', y', m') \<Rightarrow> UnionKVIter x' y' m'))"
    using assms(1-4) by (simp add: UnionKVIter_Next_def Let_def m1_def split: prod.splits)
  then show ?thesis by (simp add: ax(1) ay)
qed

lemma UnionKV_err:
  "kv_err (UnionKV (Some x) (Some y) lim) =
     (if kv_pull_err (kv_pull x) \<noteq> None then kv_pull_err (kv_pull x)
      else kv_pull_err (kv_pull y))"
proof -
  define m0 where "m0 = UnionKVIter_zero\<lparr>limit := lim\<rparr>"
  have e0: "err m0 = None" by (simp add: m0_def UnionKVIter_zero_def)
  obtain mx where ax: "UnionKVIter_advanceX (kv_pull x) (x, y, m0) = (snd (kv_pull x), y, mx)"
    "err mx = kv_pull_err (kv_pull x)" using union_advanceX_pull [OF e0, of x y] by blast
  show ?thesis
  proof (cases "err mx = None")
    case True
    obtain mxy where "UnionKVIter_advanceY (kv_pull y) (snd (kv_pull x), y, mx)
        = (snd (kv_pull x), snd (kv_pull y), mxy)" "err mxy = kv_pull_err (kv_pull y)"
      using union_advanceY_pull [OF True, of y "snd (kv_pull x)"] by blast
    then show ?thesis
      unfolding UnionKV_def m0_def [symmetric] using True ax by simp
  next
    case False
    then have "UnionKVIter_advanceY (kv_pull y) (snd (kv_pull x), y, mx) = (snd (kv_pull x), y, mx)"
      by (simp add: UnionKVIter_advanceY_def)
    then show ?thesis
      unfolding UnionKV_def m0_def [symmetric] using False ax by simp
  qed
qed

lemma MergeKVS_err:
  "kvs_err (MergeKVS (Some x) (Some y) lim) =
     (if kvs_pull_err (kvs_pull x) \<noteq> None then kvs_pull_err (kvs_pull x)
      else kv_pull_err (kv_pull y))"
proof -
  define m0 where "m0 = MergedKV_zero\<lparr>limit := lim\<rparr>"
  have e0: "err m0 = None" by (simp add: m0_def MergedKV_zero_def)
  obtain mx where ax: "MergedKV_advanceX (kvs_pull x) (x, y, m0) = (snd (kvs_pull x), y, mx)"
    "err mx = kvs_pull_err (kvs_pull x)" using merged_advanceX_pull [OF e0, of x y] by blast
  show ?thesis
  proof (cases "err mx = None")
    case True
    obtain mxy where "MergedKV_advanceY (kv_pull y) (snd (kvs_pull x), y, mx)
        = (snd (kvs_pull x), snd (kv_pull y), mxy)" "err mxy = kv_pull_err (kv_pull y)"
      using merged_advanceY_pull [OF True, of y "snd (kvs_pull x)"] by blast
    then show ?thesis
      unfolding MergeKVS_def m0_def [symmetric] using True ax by simp
  next
    case False
    then have "MergedKV_advanceY (kv_pull y) (snd (kvs_pull x), y, mx) = (snd (kvs_pull x), y, mx)"
      by (simp add: MergedKV_advanceY_def)
    then show ?thesis
      unfolding MergeKVS_def m0_def [symmetric] using False ax by simp
  qed
qed

lemma WrapKVS_err: "kvs_err (WrapKVS (Some y)) = kv_pull_err (kv_pull y)"
proof -
  have e0: "WrapKVSIter_fields.err WrapKVSIter_zero = None" by (simp add: WrapKVSIter_zero_def)
  obtain m' where "WrapKVSIter_advance (kv_pull y) (y, WrapKVSIter_zero) = (snd (kv_pull y), m')"
    "WrapKVSIter_fields.err m' = kv_pull_err (kv_pull y)"
    using wrapkvs_advance_pull [OF e0, of y] by blast
  then show ?thesis by (simp add: WrapKVS_def)
qed

lemma WrapKV_err: "kv_err (WrapKV (Some x)) = kvs_pull_err (kvs_pull x)"
proof -
  have e0: "WrapKVIter_fields.err WrapKVIter_zero = None" by (simp add: WrapKVIter_zero_def)
  obtain m' where "WrapKVIter_advance (kvs_pull x) (x, WrapKVIter_zero) = (snd (kvs_pull x), m')"
    "WrapKVIter_fields.err m' = kvs_pull_err (kvs_pull x)"
    using wrapkv_advance_pull [OF e0, of x] by blast
  then show ?thesis by (simp add: WrapKV_def)
qed

lemma kv_pull_err_eq:
  "kv_pull_err (kv_pull c) =
     (if fst (kv_HasNext c) then snd (snd (fst (kv_Next (snd (kv_HasNext c))))) else None)"
proof -
  obtain a b where h: "kv_HasNext c = (a, b)" by (cases "kv_HasNext c")
  obtain k v e b' where n: "kv_Next b = ((k, v, e), b')" by (cases "kv_Next b") auto
  show ?thesis by (cases a) (simp_all add: kv_pull.simps kv_pull_err_def h n)
qed

lemma kvs_pull_err_eq:
  "kvs_pull_err (kvs_pull c) =
     (if fst (kvs_HasNext c) then snd (snd (snd (fst (kvs_Next (snd (kvs_HasNext c))))))
      else None)"
proof -
  obtain a b where h: "kvs_HasNext c = (a, b)" by (cases "kvs_HasNext c")
  obtain k v st e b' where n: "kvs_Next b = ((k, v, st, e), b')" by (cases "kvs_Next b") auto
  show ?thesis by (cases a) (simp_all add: kvs_pull.simps kvs_pull_err_def h n)
qed

section \<open>The properties of the specification\<close>







text \<open>
  C3. If the keys of both inputs are sorted (equal neighbours allowed), then for every limit
  the keys of the output of \<open>UnionKV\<close> and of \<open>MergeKVS\<close> are sorted too; and if the
  keys of both inputs of \<open>UnionKV\<close> ascend strictly, so do the keys of its output. The
  sortedness of the inputs is a hypothesis: the streams never check it.
\<close>

theorem outputs_sorted:
  assumes "script sx = map Inr xs" and "script sy = map Inr ys" and "script sxs = map Inr xss"
    and "key_sorted (map fst xs)" and "key_sorted (map fst ys)" and "key_sorted (map fst xss)"
  shows "(\<exists>out. kv_output (UnionKV (Some (BaseKV sx)) (Some (BaseKV sy)) lim) = Some (out, None)
            \<and> key_sorted (map fst out)
            \<and> (key_ascending (map fst xs) \<and> key_ascending (map fst ys)
                 \<longrightarrow> key_ascending (map fst out)))
       \<and> (\<exists>out. kvs_output (MergeKVS (Some (BaseKVS sxs)) (Some (BaseKV sy)) lim) = Some (out, None)
            \<and> key_sorted (map fst out))"
proof -
  let ?u = "take (unat lim) (union_list xs ys)"
  let ?m = "take (unat lim) (merge_list xss ys)"
  have "sorted (map fst (union_list xs ys))"
    using assms(4,5) by (simp add: key_sorted_iff sorted_union_list)
  then have 1: "key_sorted (map fst ?u)"
    unfolding key_sorted_iff take_map [symmetric] by (rule sorted_wrt_take)
  have 2: "key_ascending (map fst ?u)"
    if "key_ascending (map fst xs) \<and> key_ascending (map fst ys)"
  proof -
    have "sorted_wrt (<) (map fst (union_list xs ys))"
      using that by (simp add: key_ascending_iff strict_union_list)
    then show ?thesis unfolding key_ascending_iff take_map [symmetric] by (rule sorted_wrt_take)
  qed
  have "sorted (map fst (merge_list xss ys))"
    using assms(5,6) by (simp add: key_sorted_iff sorted_merge_list)
  then have 3: "key_sorted (map fst ?m)"
    unfolding key_sorted_iff take_map [symmetric] by (rule sorted_wrt_take)
  show ?thesis
    using UnionKV_output [OF assms(1,2), of lim] MergeKVS_output [OF assms(3,2), of lim] 1 2 3
    by blast
qed

text \<open>The theorem at the streams of the scenario of section 8.\<close>

theorem outputs_sorted_witness:
  "(\<exists>out. kv_output (UnionKV (Some (BaseKV cx)) (Some (BaseKV cy)) 3) = Some (out, None)
            \<and> key_sorted (map fst out) \<and> key_ascending (map fst out))
   \<and> (\<exists>out. kvs_output (MergeKVS (Some (BaseKVS cxs)) (Some (BaseKV cy)) 3) = Some (out, None)
            \<and> key_sorted (map fst out))"
proof -
  have h: "script cx = map Inr [([1], [1]), ([2], [2]), ([4], [4])]"
    "script cy = map Inr [([2], [20]), ([3], [30])]"
    "script cxs = map Inr [([1], [1], 10), ([2], [2], 20), ([4], [4], 40)]"
    "key_sorted (map fst [([1], [1]), ([2], [2]), ([4], [4 :: byte])])"
    "key_sorted (map fst [([2], [20]), ([3], [30 :: byte])])"
    "key_sorted (map fst [([1], [1], 10), ([2], [2], 20), ([4], [4 :: byte], 40 :: uint64)])"
    by (simp_all add: cx_def cy_def cxs_def key_sorted_def)
  have a: "key_ascending (map fst [([1], [1]), ([2], [2]), ([4], [4 :: byte])])
      \<and> key_ascending (map fst [([2], [20]), ([3], [30 :: byte])])"
    by (simp add: key_ascending_def)
  from outputs_sorted [OF h, of 3] a show ?thesis by blast
qed

text \<open>
  C4. The claim counts the output of \<open>UnionKV x y L\<close> as \<open>min L (number of distinct
  keys)\<close> for every pair of error-free inputs. The union drops an element only when the
  two buffered keys are equal, so a key that one input holds twice comes out twice: with
  \<open>x\<close> holding the key \<open>[1]\<close> twice (sorted, equal neighbours), \<open>y\<close> exhausted and
  \<open>L = 5\<close> the output has two pairs, and there is one distinct key.
\<close>

theorem limit_caps_output_counterexample:
  "script twice_x = map Inr [([1], [1]), ([1], [2])] \<and> script empty_y = map Inr []
   \<and> key_sorted (map fst [([1], [1]), ([1], [2 :: byte])])
   \<and> kv_output (UnionKV (Some (BaseKV twice_x)) (Some (BaseKV empty_y)) 5)
        = Some ([([1], [1]), ([1], [2])], None)
   \<and> length [([1], [1]), ([1], [2 :: byte])] = 2
   \<and> min (nat (sint (5 :: go_int)))
        (card (fst ` set [([1], [1]), ([1], [2 :: byte])]
           \<union> fst ` set ([] :: (bytes \<times> bytes) list))) = 1"
proof -
  have s: "script twice_x = map Inr [([1], [1]), ([1], [2])]"
    "script empty_y = map Inr []"
    by (simp_all add: twice_x_def empty_y_def)
  have "kv_output (UnionKV (Some (BaseKV twice_x)) (Some (BaseKV empty_y)) 5)
        = Some ([([1], [1]), ([1], [2])], None)"
    unfolding UnionKV_output [OF s] by simp
  then show ?thesis using s by (simp add: key_sorted_def)
qed

text \<open>
  C4, as amended: for two present, error-free streams and a limit \<open>L > 0\<close>, draining
  \<open>MergeKVS x y L\<close> gives exactly \<open>min L (number of elements of both sides)\<close> triples,
  and draining \<open>UnionKV x y L\<close> gives at most \<open>L\<close> pairs, and exactly
  \<open>min L (number of distinct keys)\<close> pairs when the keys of each input ascend strictly
  (sorted, each key at most once per stream). With \<open>L = 0\<close> the output is empty and
  \<^verbatim>\<open>HasNext\<close> is false from the start. A \<^verbatim>\<open>Next\<close> without a latched error decrements
  the limit, and a limit of zero without a latched error makes \<^verbatim>\<open>HasNext\<close> false
  whatever the buffers hold.
\<close>

theorem limit_caps_output:
  assumes "script sx = map Inr xs" and "script sy = map Inr ys" and "script sxs = map Inr xss"
  shows "(0 < sint lim \<and> key_ascending (map fst xs) \<and> key_ascending (map fst ys) \<longrightarrow>
            (\<exists>out. kv_output (UnionKV (Some (BaseKV sx)) (Some (BaseKV sy)) lim) = Some (out, None)
               \<and> length out = min (nat (sint lim)) (card (fst ` set xs \<union> fst ` set ys))))
       \<and> (0 < sint lim \<longrightarrow>
            (\<exists>out. kv_output (UnionKV (Some (BaseKV sx)) (Some (BaseKV sy)) lim) = Some (out, None)
               \<and> length out \<le> nat (sint lim))
          \<and> (\<exists>out. kvs_output (MergeKVS (Some (BaseKVS sxs)) (Some (BaseKV sy)) lim) = Some (out, None)
               \<and> length out = min (nat (sint lim)) (length xss + length ys)))
       \<and> kv_output (UnionKV (Some (BaseKV sx)) (Some (BaseKV sy)) 0) = Some ([], None)
       \<and> \<not> fst (kv_HasNext (UnionKV (Some (BaseKV sx)) (Some (BaseKV sy)) 0))
       \<and> kvs_output (MergeKVS (Some (BaseKVS sxs)) (Some (BaseKV sy)) 0) = Some ([], None)
       \<and> \<not> fst (kvs_HasNext (MergeKVS (Some (BaseKVS sxs)) (Some (BaseKV sy)) 0))
       \<and> (err m = None \<longrightarrow>
            (\<exists>r x' y' m'. kv_Next (UnionKVIter x y m) = (r, UnionKVIter x' y' m')
               \<and> limit m' = limit m - 1))
       \<and> (err mm = None \<longrightarrow>
            (\<exists>r x' y' m'. kvs_Next (MergedKV xx y mm) = (r, MergedKV x' y' m')
               \<and> limit m' = limit mm - 1))
       \<and> (err m = None \<and> limit m = 0 \<longrightarrow> \<not> UnionKVIter_HasNext m)
       \<and> (err mm = None \<and> limit mm = 0 \<longrightarrow> \<not> MergedKV_HasNext mm)"
proof -
  have u: "kv_output (UnionKV (Some (BaseKV sx)) (Some (BaseKV sy)) l)
      = Some (take (unat l) (union_list xs ys), None)" for l
    by (rule UnionKV_output [OF assms(1,2)])
  have g: "kvs_output (MergeKVS (Some (BaseKVS sxs)) (Some (BaseKV sy)) l)
      = Some (take (unat l) (merge_list xss ys), None)" for l
    by (rule MergeKVS_output [OF assms(3,2)])
  have 1: "\<exists>out. kv_output (UnionKV (Some (BaseKV sx)) (Some (BaseKV sy)) lim) = Some (out, None)
               \<and> length out = min (nat (sint lim)) (card (fst ` set xs \<union> fst ` set ys))"
    if "0 < sint lim \<and> key_ascending (map fst xs) \<and> key_ascending (map fst ys)"
  proof -
    have "length (union_list xs ys) = card (fst ` set xs \<union> fst ` set ys)"
      using length_union_list [of xs ys] that by (simp add: key_ascending_iff)
    moreover have "unat lim = nat (sint lim)" using that by (simp add: unat_of_positive)
    ultimately show ?thesis using u [of lim] by (simp add: min.commute)
  qed
  have 2: "(\<exists>out. kv_output (UnionKV (Some (BaseKV sx)) (Some (BaseKV sy)) lim) = Some (out, None)
               \<and> length out \<le> nat (sint lim))
          \<and> (\<exists>out. kvs_output (MergeKVS (Some (BaseKVS sxs)) (Some (BaseKV sy)) lim) = Some (out, None)
               \<and> length out = min (nat (sint lim)) (length xss + length ys))"
    if "0 < sint lim"
    using u [of lim] g [of lim] unat_of_positive [OF that]
    by (simp add: min.commute length_merge_list)
  have 3: "kv_output (UnionKV (Some (BaseKV sx)) (Some (BaseKV sy)) 0) = Some ([], None)"
    using u [of 0] by simp
  have 4: "kvs_output (MergeKVS (Some (BaseKVS sxs)) (Some (BaseKV sy)) 0) = Some ([], None)"
    using g [of 0] by simp
  have 5: "\<exists>r x' y' m'. kv_Next (UnionKVIter x y m) = (r, UnionKVIter x' y' m')
               \<and> limit m' = limit m - 1" if "err m = None"
    using union_Next_limit [of x y m] that by simp
  have 6: "\<exists>r x' y' m'. kvs_Next (MergedKV xx y mm) = (r, MergedKV x' y' m')
               \<and> limit m' = limit mm - 1" if "err mm = None"
    using merged_Next_limit [of xx y mm] that by simp
  have 7: "err m = None \<and> limit m = 0 \<longrightarrow> \<not> UnionKVIter_HasNext m"
    by (simp add: UnionKVIter_HasNext_def)
  have 8: "err mm = None \<and> limit mm = 0 \<longrightarrow> \<not> MergedKV_HasNext mm"
    by (simp add: MergedKV_HasNext_def)
  show ?thesis
    using 1 2 3 4 5 6 7 8 UnionKV_zero_HasNext [OF assms(1,2)] MergeKVS_zero_HasNext [OF assms(3,2)]
    by blast
qed

text \<open>
  The theorem at the streams of the scenario, with limit 2; and, for the count of
  \<open>MergeKVS\<close>, at a first input that holds a key twice.
\<close>

theorem limit_caps_output_witness:
  "(\<exists>out. kv_output (UnionKV (Some (BaseKV cx)) (Some (BaseKV cy)) 2) = Some (out, None)
      \<and> length out = 2)
   \<and> (\<exists>out. kvs_output (MergeKVS (Some (BaseKVS cxs)) (Some (BaseKV cy)) 2) = Some (out, None)
      \<and> length out = 2)
   \<and> (\<exists>out. kvs_output (MergeKVS (Some (BaseKVS twice_xs)) (Some (BaseKV once_y)) 5)
        = Some (out, None) \<and> length out = 3)
   \<and> kv_output (UnionKV (Some (BaseKV cx)) (Some (BaseKV cy)) 0) = Some ([], None)
   \<and> \<not> fst (kv_HasNext (UnionKV (Some (BaseKV cx)) (Some (BaseKV cy)) 0))
   \<and> kvs_output (MergeKVS (Some (BaseKVS cxs)) (Some (BaseKV cy)) 0) = Some ([], None)
   \<and> \<not> fst (kvs_HasNext (MergeKVS (Some (BaseKVS cxs)) (Some (BaseKV cy)) 0))
   \<and> \<not> UnionKVIter_HasNext UnionKVIter_zero \<and> \<not> MergedKV_HasNext MergedKV_zero"
proof -
  have h: "script cx = map Inr [([1], [1]), ([2], [2]), ([4], [4])]"
    "script cy = map Inr [([2], [20]), ([3], [30])]"
    "script cxs = map Inr [([1], [1], 10), ([2], [2], 20), ([4], [4], 40)]"
    by (simp_all add: cx_def cy_def cxs_def)
  have h2: "script cx = map Inr [([1], [1]), ([2], [2]), ([4], [4])]"
    "script once_y = map Inr [([1], [9])]"
    "script twice_xs = map Inr [([1], [1], 5), ([1], [2], 6)]"
    by (simp_all add: cx_def once_y_def twice_xs_def)
  have a: "key_ascending (map fst [([1], [1]), ([2], [2]), ([4], [4 :: byte])])"
    "key_ascending (map fst [([2], [20]), ([3], [30 :: byte])])"
    by (simp_all add: key_ascending_def)
  have p: "0 < sint (2 :: go_int)" "0 < sint (5 :: go_int)" by simp_all
  have c: "min (nat (sint (2 :: go_int)))
      (card (fst ` set [([1], [1]), ([2], [2]), ([4], [4 :: byte])]
         \<union> fst ` set [([2 :: byte], [20]), ([3], [30 :: byte])])) = 2"
    "min (nat (sint (2 :: go_int)))
      (length [([1], [1], 10), ([2], [2], 20), ([4], [4 :: byte], 40 :: uint64)]
         + length [([2 :: byte], [20]), ([3], [30 :: byte])]) = 2"
    "min (nat (sint (5 :: go_int)))
      (length [([1], [1], 5), ([1], [2 :: byte], 6 :: uint64)] + length [([1 :: byte], [9 :: byte])]) = 3"
    by (simp_all add: card_insert_if)
  have z: "err UnionKVIter_zero = None" "limit UnionKVIter_zero = 0"
    "err MergedKV_zero = None" "limit MergedKV_zero = 0"
    by (simp_all add: UnionKVIter_zero_def MergedKV_zero_def)
  have 1: "\<exists>out. kvs_output (MergeKVS (Some (BaseKVS twice_xs)) (Some (BaseKV once_y)) 5)
        = Some (out, None) \<and> length out = 3"
    using limit_caps_output [OF h2, where lim = 5] p(2) unfolding c by blast
  from limit_caps_output [OF h, where lim = 2 and m = UnionKVIter_zero and mm = MergedKV_zero]
    p(1) a z have "(\<exists>out. kv_output (UnionKV (Some (BaseKV cx)) (Some (BaseKV cy)) 2) = Some (out, None)
      \<and> length out = 2)
   \<and> (\<exists>out. kvs_output (MergeKVS (Some (BaseKVS cxs)) (Some (BaseKV cy)) 2) = Some (out, None)
      \<and> length out = 2)
   \<and> kv_output (UnionKV (Some (BaseKV cx)) (Some (BaseKV cy)) 0) = Some ([], None)
   \<and> \<not> fst (kv_HasNext (UnionKV (Some (BaseKV cx)) (Some (BaseKV cy)) 0))
   \<and> kvs_output (MergeKVS (Some (BaseKVS cxs)) (Some (BaseKV cy)) 0) = Some ([], None)
   \<and> \<not> fst (kvs_HasNext (MergeKVS (Some (BaseKVS cxs)) (Some (BaseKV cy)) 0))
   \<and> \<not> UnionKVIter_HasNext UnionKVIter_zero \<and> \<not> MergedKV_HasNext MergedKV_zero"
    unfolding c by blast
  with 1 show ?thesis by blast
qed

text \<open>
  C5. The claim says that \<open>UnionKV x nil n\<close> is \<open>x\<close> truncated to \<open>n\<close> elements, and
  likewise for \<open>MergeKVS\<close>. The constructors return the present stream itself (or its
  lift), and no limit is applied to it: with \<open>n = 1\<close> the three elements of \<open>x\<close> all come
  out.
\<close>

theorem degenerate_inputs_counterexample:
  "kv_output (UnionKV (Some (BaseKV cx)) None 1)
     = Some ([([1], [1]), ([2], [2]), ([4], [4])], None)
   \<and> kv_output (UnionKV (Some (BaseKV cx)) None 1)
     \<noteq> Some (take 1 [([1], [1]), ([2], [2]), ([4], [4])], None)
   \<and> kvs_output (MergeKVS None (Some (BaseKV cy)) 1)
     = Some ([([2], [20], 0), ([3], [30], 0)], None)
   \<and> kvs_output (MergeKVS (Some (BaseKVS cxs)) None 1)
     = Some ([([1], [1], 10), ([2], [2], 20), ([4], [4], 40)], None)"
proof -
  have a: "kv_output (BaseKV cx) = Some ([([1], [1]), ([2], [2]), ([4], [4])], None)"
    by (rule base_output) (simp add: cx_def)
  have b: "kvs_output (WrapKVS (Some (BaseKV cy)))
      = Some (map (\<lambda>(k, v). (k, v, 0)) [([2], [20]), ([3], [30])], None)"
    by (rule WrapKVS_output) (simp add: cy_def)
  have c: "kvs_output (BaseKVS cxs) = Some ([([1], [1], 10), ([2], [2], 20), ([4], [4], 40)], None)"
    by (rule bases_output) (simp add: cxs_def)
  show ?thesis
    using b by (simp add: UnionKV_def MergeKVS_def a c)
qed

text \<open>
  C5, as the code has it: with an absent side the constructors ignore the limit.
  \<open>UnionKV\<close> returns the present stream unchanged, \<open>MergeKVS\<close> returns \<open>x\<close> unchanged
  or \<open>y\<close> lifted by \<open>WrapKVS\<close> (step zero), and with both sides absent the vacuous stream;
  drained, these give every element of the present stream, whatever \<open>n\<close> is.
\<close>

theorem degenerate_inputs_unchanged:
  "UnionKV (Some x) None n = x
   \<and> UnionKV None (Some y) n = y
   \<and> UnionKV None None n = EmptyKV
   \<and> kv_output EmptyKV = Some ([], None)
   \<and> MergeKVS (Some xx) None n = xx
   \<and> MergeKVS None (Some y) n = WrapKVS (Some y)
   \<and> MergeKVS None None n = EmptyKVS
   \<and> kvs_output EmptyKVS = Some ([], None)
   \<and> (script s = map Inr xs \<longrightarrow> kv_output (UnionKV (Some (BaseKV s)) None n) = Some (xs, None))
   \<and> (script s = map Inr xs \<longrightarrow>
        kvs_output (MergeKVS None (Some (BaseKV s)) n) = Some (map (\<lambda>(k, v). (k, v, 0)) xs, None))
   \<and> (script ss = map Inr xss \<longrightarrow>
        kvs_output (MergeKVS (Some (BaseKVS ss)) None n) = Some (xss, None))"
proof -
  have u: "UnionKV (Some x) None n = x" "UnionKV None (Some y) n = y"
    "UnionKV None None n = EmptyKV"
    by (simp_all add: UnionKV_def)
  have g: "MergeKVS (Some xx) None n = xx" "MergeKVS None (Some y) n = WrapKVS (Some y)"
    "MergeKVS None None n = EmptyKVS"
    by (simp_all add: MergeKVS_def)
  have 1: "kv_output (UnionKV (Some (BaseKV s)) None n) = Some (xs, None)"
    if "script s = map Inr xs"
    using base_output [OF that] by (simp add: UnionKV_def)
  have 2: "kvs_output (MergeKVS None (Some (BaseKV s)) n)
      = Some (map (\<lambda>(k, v). (k, v, 0)) xs, None)" if "script s = map Inr xs"
    using WrapKVS_output [OF that] by (simp add: MergeKVS_def)
  have 3: "kvs_output (MergeKVS (Some (BaseKVS ss)) None n) = Some (xss, None)"
    if "script ss = map Inr xss"
    using bases_output [OF that] by (simp add: MergeKVS_def)
  show ?thesis
    using u g empty_outputs 1 2 3 by (intro conjI impI)
qed

text \<open>The theorem at the streams of the scenario, with \<open>n = 0\<close>.\<close>

theorem degenerate_inputs_unchanged_witness:
  "UnionKV (Some (BaseKV cx)) None 0 = BaseKV cx
   \<and> kv_output (UnionKV (Some (BaseKV cy)) None 0) = Some ([([2], [20]), ([3], [30])], None)
   \<and> kvs_output (MergeKVS None (Some (BaseKV cy)) 0) =
        Some (map (\<lambda>(k, v). (k, v, 0)) [([2], [20]), ([3], [30])], None)
   \<and> kvs_output (MergeKVS (Some (BaseKVS cxs)) None 0)
       = Some ([([1], [1], 10), ([2], [2], 20), ([4], [4], 40)], None)"
proof -
  have h: "script cy = map Inr [([2], [20]), ([3], [30])]"
    "script cxs = map Inr [([1], [1], 10), ([2], [2], 20), ([4], [4], 40)]"
    by (simp_all add: cy_def cxs_def)
  from degenerate_inputs_unchanged [where x = "BaseKV cx" and n = 0 and s = cy
      and xs = "[([2], [20]), ([3], [30])]" and ss = cxs
      and xss = "[([1], [1], 10), ([2], [2], 20), ([4], [4], 40)]"] h
  show ?thesis by blast
qed

text \<open>
  C6. A composite with a latched error (\<open>UnionKVIter\<close>, \<open>WrapKVIter\<close>, \<open>MergedKV\<close>,
  \<open>WrapKVSIter\<close>) answers every \<^verbatim>\<open>Next\<close> with that error and zero values, its
  \<^verbatim>\<open>HasNext\<close> is true, and neither call changes the stream: the children, call
  counters of the base streams included, stay as they are, so no child is called again.

  The error is latched by the call whose pull on a child met it. After a \<^verbatim>\<open>Next\<close> on
  a composite without a latched error, the composite's error is the error of the pull
  this \<^verbatim>\<open>Next\<close> made on the child it advanced (for \<open>UnionKVIter\<close> on equal keys:
  of the pull on \<open>x\<close> if that failed, and then \<open>y\<close> is left untouched, else of the
  pull on \<open>y\<close>), and this \<^verbatim>\<open>Next\<close> itself answers no error. After a constructor
  over present children, the composite's error is the error of the pull on the first
  child if that failed, else of the pull on the second. Here the error of a pull on a
  child is the error of the child's \<^verbatim>\<open>Next\<close> when its \<^verbatim>\<open>HasNext\<close> reported an
  element, and none otherwise. So a \<^verbatim>\<open>Next\<close> or a constructor whose pull meets an
  error leaves the composite latched with that error, and the first part applies from
  then on.

  At the level of the advance helpers: when the pull on a child answers an error, the
  composite's error is that error afterwards; and an advance on a composite with a
  latched error touches nothing.
\<close>

theorem error_latching:
  "(kv_err t = Some e \<longrightarrow>
      (\<forall>n. ((\<lambda>s. snd (kv_Next s)) ^^ n) t = t) \<and>
      kv_Next t = (([], [], Some e), t) \<and> kv_HasNext t = (True, t)) \<and>
   (kvs_err u = Some e \<longrightarrow>
      (\<forall>n. ((\<lambda>s. snd (kvs_Next s)) ^^ n) u = u) \<and>
      kvs_Next u = (([], [], 0, Some e), u) \<and> kvs_HasNext u = (True, u)) \<and>
   (err um = None \<longrightarrow>
      kv_err (snd (kv_Next (UnionKVIter ux uy um))) =
        (if xHasNext um \<and> yHasNext um then
           (if bytes_Compare (xNextK um) (yNextK um) < 0 then kv_pull_err (kv_pull ux)
            else if bytes_Compare (xNextK um) (yNextK um) = 0 then
              (if kv_pull_err (kv_pull ux) \<noteq> None then kv_pull_err (kv_pull ux)
               else kv_pull_err (kv_pull uy))
            else kv_pull_err (kv_pull uy))
         else if xHasNext um then kv_pull_err (kv_pull ux)
         else kv_pull_err (kv_pull uy)) \<and>
      snd (snd (fst (kv_Next (UnionKVIter ux uy um)))) = None) \<and>
   (err um = None \<and> xHasNext um \<and> yHasNext um \<and>
    bytes_Compare (xNextK um) (yNextK um) = 0 \<and> kv_pull_err (kv_pull ux) \<noteq> None \<longrightarrow>
      (\<exists>m'. snd (kv_Next (UnionKVIter ux uy um)) = UnionKVIter (snd (kv_pull ux)) uy m')) \<and>
   (err gm = None \<longrightarrow>
      kvs_err (snd (kvs_Next (MergedKV gx gy gm))) =
        (if xHasNext gm \<and> yHasNext gm then
           (if bytes_Compare (xNextK gm) (yNextK gm) \<le> 0 then kvs_pull_err (kvs_pull gx)
            else kv_pull_err (kv_pull gy))
         else if xHasNext gm then kvs_pull_err (kvs_pull gx)
         else kv_pull_err (kv_pull gy)) \<and>
      snd (snd (snd (fst (kvs_Next (MergedKV gx gy gm))))) = None) \<and>
   (WrapKVSIter_fields.err sm = None \<longrightarrow>
      kvs_err (snd (kvs_Next (WrapKVSIter sy sm))) = kv_pull_err (kv_pull sy) \<and>
      snd (snd (snd (fst (kvs_Next (WrapKVSIter sy sm))))) = None) \<and>
   (WrapKVIter_fields.err wm = None \<longrightarrow>
      kv_err (snd (kv_Next (WrapKVIter wx wm))) = kvs_pull_err (kvs_pull wx) \<and>
      snd (snd (fst (kv_Next (WrapKVIter wx wm)))) = None) \<and>
   kv_err (UnionKV (Some ux) (Some uy) lim) =
     (if kv_pull_err (kv_pull ux) \<noteq> None then kv_pull_err (kv_pull ux)
      else kv_pull_err (kv_pull uy)) \<and>
   kvs_err (MergeKVS (Some gx) (Some gy) lim) =
     (if kvs_pull_err (kvs_pull gx) \<noteq> None then kvs_pull_err (kvs_pull gx)
      else kv_pull_err (kv_pull gy)) \<and>
   kvs_err (MergeKVS None (Some sy) lim) = kv_pull_err (kv_pull sy) \<and>
   kvs_err (WrapKVS (Some sy)) = kv_pull_err (kv_pull sy) \<and>
   kv_err (WrapKV (Some wx)) = kvs_pull_err (kvs_pull wx) \<and>
   kv_pull_err (kv_pull c) =
     (if fst (kv_HasNext c) then snd (snd (fst (kv_Next (snd (kv_HasNext c))))) else None) \<and>
   kvs_pull_err (kvs_pull cs) =
     (if fst (kvs_HasNext cs) then snd (snd (snd (fst (kvs_Next (snd (kvs_HasNext cs))))))
      else None) \<and>
   (err m = None \<and> kv_pull c = ((True, k, v, Some e), c') \<longrightarrow>
      kv_err (case UnionKVIter_advanceX (kv_pull c) (c, y, m) of
                (a, b, m') \<Rightarrow> UnionKVIter a b m') = Some e \<and>
      kv_err (case UnionKVIter_advanceY (kv_pull c) (x, c, m) of
                (a, b, m') \<Rightarrow> UnionKVIter a b m') = Some e) \<and>
   (err mm = None \<and> kvs_pull cs = ((True, k, v, st, Some e), cs') \<longrightarrow>
      kvs_err (case MergedKV_advanceX (kvs_pull cs) (cs, y, mm) of
                (a, b, m') \<Rightarrow> MergedKV a b m') = Some e) \<and>
   (err mm = None \<and> kv_pull c = ((True, k, v, Some e), c') \<longrightarrow>
      kvs_err (case MergedKV_advanceY (kv_pull c) (xs, c, mm) of
                (a, b, m') \<Rightarrow> MergedKV a b m') = Some e) \<and>
   (WrapKVSIter_fields.err ws = None \<and> kv_pull c = ((True, k, v, Some e), c') \<longrightarrow>
      kvs_err (case WrapKVSIter_advance (kv_pull c) (c, ws) of
                (a, m') \<Rightarrow> WrapKVSIter a m') = Some e) \<and>
   (WrapKVIter_fields.err wk = None \<and> kvs_pull cs = ((True, k, v, st, Some e), cs') \<longrightarrow>
      kv_err (case WrapKVIter_advance (kvs_pull cs) (cs, wk) of
                (a, m') \<Rightarrow> WrapKVIter a m') = Some e) \<and>
   (err lm \<noteq> None \<longrightarrow>
      UnionKVIter_advanceX px (x, y, lm) = (x, y, lm) \<and>
      UnionKVIter_advanceY py (x, y, lm) = (x, y, lm)) \<and>
   (err lmm \<noteq> None \<longrightarrow>
      MergedKV_advanceX pxs (xs, y, lmm) = (xs, y, lmm) \<and>
      MergedKV_advanceY py (xs, y, lmm) = (xs, y, lmm)) \<and>
   (WrapKVSIter_fields.err lws \<noteq> None \<longrightarrow> WrapKVSIter_advance py (y, lws) = (y, lws)) \<and>
   (WrapKVIter_fields.err lwk \<noteq> None \<longrightarrow> WrapKVIter_advance pxs (xs, lwk) = (xs, lwk))"
proof -
  have a: "kv_err t = Some e \<longrightarrow>
      (\<forall>n. ((\<lambda>s. snd (kv_Next s)) ^^ n) t = t) \<and>
      kv_Next t = (([], [], Some e), t) \<and> kv_HasNext t = (True, t)"
    using kv_latched_Next kv_latched_funpow by blast
  have b: "kvs_err u = Some e \<longrightarrow>
      (\<forall>n. ((\<lambda>s. snd (kvs_Next s)) ^^ n) u = u) \<and>
      kvs_Next u = (([], [], 0, Some e), u) \<and> kvs_HasNext u = (True, u)"
    using kvs_latched_Next kvs_latched_funpow by blast
  note n1 = impI [OF union_Next_err [of um ux uy]]
  have n2: "err um = None \<and> xHasNext um \<and> yHasNext um \<and>
    bytes_Compare (xNextK um) (yNextK um) = 0 \<and> kv_pull_err (kv_pull ux) \<noteq> None \<longrightarrow>
      (\<exists>m'. snd (kv_Next (UnionKVIter ux uy um)) = UnionKVIter (snd (kv_pull ux)) uy m')"
    using union_Next_stops [of um ux uy] by blast
  note n3 = impI [OF merged_Next_err [of gm gx gy]]
  note n4 = impI [OF wrapkvs_Next_err [of sm sy]]
  note n5 = impI [OF wrapkv_Next_err [of wm wx]]
  have k3: "kvs_err (MergeKVS None (Some sy) lim) = kv_pull_err (kv_pull sy)"
    using WrapKVS_err [of sy] by (simp add: MergeKVS_def)
  show ?thesis
    by (intro conjI a b n1 n2 n3 n4 n5 UnionKV_err MergeKVS_err k3 WrapKVS_err WrapKV_err
          kv_pull_err_eq kvs_pull_err_eq)
       (simp_all add: UnionKVIter_advanceX_def UnionKVIter_advanceY_def MergedKV_advanceX_def
          MergedKV_advanceY_def WrapKVSIter_advance_def WrapKVIter_advance_def)
qed

text \<open>
  The theorem at composites whose first child fails on its second pull, which the first
  \<^verbatim>\<open>Next\<close> makes, and at composites whose child fails on the first pull, which the
  constructor makes.
\<close>

theorem error_latching_witness:
  "fst (kv_Next (UnionKV (Some (BaseKV cfail)) (Some (BaseKV cy)) (- 1))) = ([1], [1], None)
   \<and> kv_err (snd (kv_Next (UnionKV (Some (BaseKV cfail)) (Some (BaseKV cy)) (- 1))))
       = Some (Error ''io'')
   \<and> kv_Next (snd (kv_Next (UnionKV (Some (BaseKV cfail)) (Some (BaseKV cy)) (- 1))))
       = (([], [], Some (Error ''io'')),
          snd (kv_Next (UnionKV (Some (BaseKV cfail)) (Some (BaseKV cy)) (- 1))))
   \<and> kv_HasNext (snd (kv_Next (UnionKV (Some (BaseKV cfail)) (Some (BaseKV cy)) (- 1))))
       = (True, snd (kv_Next (UnionKV (Some (BaseKV cfail)) (Some (BaseKV cy)) (- 1))))
   \<and> kvs_err (snd (kvs_Next (MergeKVS (Some (BaseKVS cfails)) (Some (BaseKV cy)) (- 1))))
       = Some (Error ''io'')
   \<and> kvs_err (snd (kvs_Next (WrapKVS (Some (BaseKV cfail))))) = Some (Error ''io'')
   \<and> kv_err (snd (kv_Next (WrapKV (Some (BaseKVS cfails))))) = Some (Error ''io'')
   \<and> kvs_err (MergeKVS (Some (BaseKVS cerrs)) (Some (BaseKV cy)) (- 1)) = Some (Error ''io'')
   \<and> kvs_Next (MergeKVS (Some (BaseKVS cerrs)) (Some (BaseKV cy)) (- 1))
       = (([], [], 0, Some (Error ''io'')), MergeKVS (Some (BaseKVS cerrs)) (Some (BaseKV cy)) (- 1))
   \<and> kv_err (UnionKV (Some (BaseKV cx)) (Some (BaseKV cerr)) (- 1)) = Some (Error ''io'')
   \<and> kvs_err (WrapKVS (Some (BaseKV cerr))) = Some (Error ''io'')
   \<and> kv_err (WrapKV (Some (BaseKVS cerrs))) = Some (Error ''io'')"
proof -
  let ?t = "snd (kv_Next (UnionKV (Some (BaseKV cfail)) (Some (BaseKV cy)) (- 1)))"
  let ?u = "MergeKVS (Some (BaseKVS cerrs)) (Some (BaseKV cy)) (- 1)"
  let ?x1 = "BaseKV (cfail\<lparr>script := [Inl (Error ''io'')], hasNextCalls := 1, nextCalls := 1\<rparr>)"
  let ?xs1 = "BaseKVS (cfails\<lparr>script := [Inl (Error ''io'')], hasNextCalls := 1, nextCalls := 1\<rparr>)"
  let ?y1 = "BaseKV (cy\<lparr>script := [Inr ([3], [30])], hasNextCalls := 1, nextCalls := 1\<rparr>)"
  let ?um = "\<lparr>xHasNext = True, yHasNext = True, xNextK = [1], xNextV = [1], yNextK = [2],
      yNextV = [20], limit = - 1, err = None\<rparr>"
  let ?gm = "\<lparr>xHasNext = True, yHasNext = True, xNextK = [1], xNextV = [1], yNextK = [2],
      yNextV = [20], limit = - 1, err = None, xStep = 10\<rparr>"
  let ?sm = "\<lparr>WrapKVSIter_fields.yHasNext = True, WrapKVSIter_fields.yNextK = [1],
      WrapKVSIter_fields.yNextV = [1], WrapKVSIter_fields.err = None\<rparr>"
  let ?wm = "\<lparr>WrapKVIter_fields.xHasNext = True, WrapKVIter_fields.xNextK = [1],
      WrapKVIter_fields.xNextV = [1], WrapKVIter_fields.err = None\<rparr>"
  have pc: "kv_pull (BaseKV cerr) = ((True, [], [], Some (Error ''io'')),
      BaseKV (cerr\<lparr>hasNextCalls := 1, nextCalls := 1\<rparr>))"
    by (simp add: kv_pull.simps cerr_def src_HasNext_def src_Next_def)
  have pcs: "kvs_pull (BaseKVS cerrs) = ((True, [], [], 0, Some (Error ''io'')),
      BaseKVS (cerrs\<lparr>hasNextCalls := 1, nextCalls := 1\<rparr>))"
    by (simp add: kvs_pull.simps cerrs_def src_HasNext_def src_Next_def)
  have px: "kv_pull_err (kv_pull (BaseKV cx)) = None"
    by (simp add: kv_pull.simps kv_pull_err_def cx_def src_HasNext_def src_Next_def)
  have p1: "kv_pull_err (kv_pull ?x1) = Some (Error ''io'')"
    by (simp add: kv_pull.simps kv_pull_err_def cfail_def src_HasNext_def src_Next_def)
  have ps1: "kvs_pull_err (kvs_pull ?xs1) = Some (Error ''io'')"
    by (simp add: kvs_pull.simps kvs_pull_err_def cfails_def src_HasNext_def src_Next_def)
  have c1: "UnionKV (Some (BaseKV cfail)) (Some (BaseKV cy)) (- 1) = UnionKVIter ?x1 ?y1 ?um"
    by (simp add: UnionKV_def UnionKVIter_advanceX_def UnionKVIter_advanceY_def kv_pull.simps
        UnionKVIter_zero_def cfail_def cy_def src_HasNext_def src_Next_def)
  have c2: "MergeKVS (Some (BaseKVS cfails)) (Some (BaseKV cy)) (- 1) = MergedKV ?xs1 ?y1 ?gm"
    by (simp add: MergeKVS_def MergedKV_advanceX_def MergedKV_advanceY_def kv_pull.simps
        kvs_pull.simps MergedKV_zero_def cfails_def cy_def src_HasNext_def src_Next_def)
  have c3: "WrapKVS (Some (BaseKV cfail)) = WrapKVSIter ?x1 ?sm"
    by (simp add: WrapKVS_def WrapKVSIter_advance_def kv_pull.simps WrapKVSIter_zero_def
        cfail_def src_HasNext_def src_Next_def)
  have c4: "WrapKV (Some (BaseKVS cfails)) = WrapKVIter ?xs1 ?wm"
    by (simp add: WrapKV_def WrapKVIter_advance_def kvs_pull.simps WrapKVIter_zero_def
        cfails_def src_HasNext_def src_Next_def)
  have f: "fst (kv_Next (UnionKV (Some (BaseKV cfail)) (Some (BaseKV cy)) (- 1))) = ([1], [1], None)"
    by (simp add: UnionKV_def UnionKVIter_advanceX_def UnionKVIter_advanceY_def kv_pull.simps
        UnionKVIter_Next_def UnionKVIter_zero_def cfail_def cy_def src_HasNext_def src_Next_def)
  have t: "kv_err ?t = Some (Error ''io'')"
    unfolding c1
    using error_latching [where ux = ?x1 and uy = ?y1 and um = ?um,
        THEN conjunct2, THEN conjunct2, THEN conjunct1] p1
    by simp
  have g: "kvs_err (snd (kvs_Next (MergeKVS (Some (BaseKVS cfails)) (Some (BaseKV cy)) (- 1))))
      = Some (Error ''io'')"
    unfolding c2
    using error_latching [where gx = ?xs1 and gy = ?y1 and gm = ?gm,
        THEN conjunct2, THEN conjunct2, THEN conjunct2, THEN conjunct2, THEN conjunct1] ps1
    by simp
  have s: "kvs_err (snd (kvs_Next (WrapKVS (Some (BaseKV cfail))))) = Some (Error ''io'')"
    unfolding c3
    using error_latching [where sy = ?x1 and sm = ?sm,
        THEN conjunct2, THEN conjunct2, THEN conjunct2, THEN conjunct2, THEN conjunct2,
        THEN conjunct1] p1
    by simp
  have k: "kv_err (snd (kv_Next (WrapKV (Some (BaseKVS cfails))))) = Some (Error ''io'')"
    unfolding c4
    using error_latching [where wx = ?xs1 and wm = ?wm,
        THEN conjunct2, THEN conjunct2, THEN conjunct2, THEN conjunct2, THEN conjunct2,
        THEN conjunct2, THEN conjunct1] ps1
    by simp
  have u: "kvs_err ?u = Some (Error ''io'')"
    using error_latching [where gx = "BaseKVS cerrs" and gy = "BaseKV cy" and lim = "- 1",
        THEN conjunct2, THEN conjunct2, THEN conjunct2, THEN conjunct2, THEN conjunct2,
        THEN conjunct2, THEN conjunct2, THEN conjunct2, THEN conjunct1] pcs
    by (simp add: kvs_pull_err_def)
  have uu: "kv_err (UnionKV (Some (BaseKV cx)) (Some (BaseKV cerr)) (- 1)) = Some (Error ''io'')"
    using error_latching [where ux = "BaseKV cx" and uy = "BaseKV cerr" and lim = "- 1",
        THEN conjunct2, THEN conjunct2, THEN conjunct2, THEN conjunct2, THEN conjunct2,
        THEN conjunct2, THEN conjunct2, THEN conjunct1] pc px
    by (simp add: kv_pull_err_def)
  have w: "kvs_err (WrapKVS (Some (BaseKV cerr))) = Some (Error ''io'')"
    using error_latching [where sy = "BaseKV cerr",
        THEN conjunct2, THEN conjunct2, THEN conjunct2, THEN conjunct2, THEN conjunct2,
        THEN conjunct2, THEN conjunct2, THEN conjunct2, THEN conjunct2, THEN conjunct2,
        THEN conjunct1] pc
    by (simp add: kv_pull_err_def)
  have w2: "kv_err (WrapKV (Some (BaseKVS cerrs))) = Some (Error ''io'')"
    using error_latching [where wx = "BaseKVS cerrs",
        THEN conjunct2, THEN conjunct2, THEN conjunct2, THEN conjunct2, THEN conjunct2,
        THEN conjunct2, THEN conjunct2, THEN conjunct2, THEN conjunct2, THEN conjunct2,
        THEN conjunct2, THEN conjunct1] pcs
    by (simp add: kvs_pull_err_def)
  have a: "kv_Next ?t = (([], [], Some (Error ''io'')), ?t) \<and> kv_HasNext ?t = (True, ?t)"
    using error_latching [where t = ?t and e = "Error ''io''", THEN conjunct1, THEN mp, OF t]
    by blast
  have b: "kvs_Next ?u = (([], [], 0, Some (Error ''io'')), ?u)"
    using error_latching [where u = ?u and e = "Error ''io''", THEN conjunct2, THEN conjunct1,
        THEN mp, OF u]
    by blast
  show ?thesis
    using f t g s k u uu w w2 a b by (intro conjI) blast+
qed

text \<open>
  C7. The claim says that a failure of the mapping is latched. \<open>TransformKV2U64Iter\<close> has
  no error field: with a mapping that fails on the first key only, the first \<^verbatim>\<open>Next\<close>
  returns the failure, and the second pulls the child again and returns the mapped second
  element without an error.
\<close>

theorem transform_failure_counterexample:
  "fst (u64_Next (TransformKV2U64 (BaseKV cx) tf)) = (0, Some (Error ''bad key''))
   \<and> fst (u64_Next (snd (u64_Next (TransformKV2U64 (BaseKV cx) tf)))) = (7, None)
   \<and> fst (u64_HasNext (snd (u64_Next (TransformKV2U64 (BaseKV cx) tf))))"
  by (simp add: TransformKV2U64_def u64_Next_def u64_HasNext_def cx_def tf_def src_Next_def
      src_HasNext_def)

text \<open>
  C7, as the code has it: when the mapping fails on an element, that \<^verbatim>\<open>Next\<close> returns
  what the mapping returned, error included, and the wrapper keeps nothing of it: its
  \<^verbatim>\<open>HasNext\<close> is the child's, and its next \<^verbatim>\<open>Next\<close> pulls the child again and maps
  the element it gets. An error of the child is passed on with the value zero, without
  calling the mapping.
\<close>

theorem transform_failure_returned_once:
  "(kv_Next it = ((k, v, None), it') \<and> transform k v = (u, Some e) \<longrightarrow>
      u64_Next (TransformKV2U64 it transform) = ((u, Some e), TransformKV2U64 it' transform)
      \<and> u64_HasNext (TransformKV2U64 it' transform) =
           (case kv_HasNext it' of (b, it'') \<Rightarrow> (b, TransformKV2U64 it'' transform))
      \<and> u64_Next (TransformKV2U64 it' transform) =
           (case kv_Next it' of ((k', v', e'), it'') \<Rightarrow>
              if e' \<noteq> None then ((0, e'), TransformKV2U64 it'' transform)
              else (transform k' v', TransformKV2U64 it'' transform)))
   \<and> (kv_Next jt = ((k, v, Some e), jt') \<longrightarrow>
      u64_Next (TransformKV2U64 jt transform) = ((0, Some e), TransformKV2U64 jt' transform))"
proof (intro conjI impI)
  assume a: "kv_Next it = ((k, v, None), it') \<and> transform k v = (u, Some e)"
  then show "u64_Next (TransformKV2U64 it transform) = ((u, Some e), TransformKV2U64 it' transform)"
    by (simp add: TransformKV2U64_def u64_Next_def)
  show "u64_HasNext (TransformKV2U64 it' transform) =
      (case kv_HasNext it' of (b, it'') \<Rightarrow> (b, TransformKV2U64 it'' transform))"
    by (simp add: TransformKV2U64_def u64_HasNext_def)
  show "u64_Next (TransformKV2U64 it' transform) =
      (case kv_Next it' of ((k', v', e'), it'') \<Rightarrow>
         if e' \<noteq> None then ((0, e'), TransformKV2U64 it'' transform)
         else (transform k' v', TransformKV2U64 it'' transform))"
    unfolding TransformKV2U64_def u64_Next_def by simp
next
  assume "kv_Next jt = ((k, v, Some e), jt')"
  then show "u64_Next (TransformKV2U64 jt transform) = ((0, Some e), TransformKV2U64 jt' transform)"
    by (simp add: TransformKV2U64_def u64_Next_def)
qed

text \<open>The theorem at a failing mapping and at a failing child.\<close>

theorem transform_failure_returned_once_witness:
  "u64_Next (TransformKV2U64 (BaseKV cx) tf) =
     ((0, Some (Error ''bad key'')), TransformKV2U64 (snd (kv_Next (BaseKV cx))) tf)
   \<and> fst (u64_Next (TransformKV2U64 (snd (kv_Next (BaseKV cx))) tf)) = (7, None)
   \<and> u64_Next (TransformKV2U64 (BaseKV cerr) tf) =
     ((0, Some (Error ''io'')), TransformKV2U64 (snd (kv_Next (BaseKV cerr))) tf)"
proof -
  have a: "kv_Next (BaseKV cx) = (([1], [1], None), snd (kv_Next (BaseKV cx)))"
    by (simp add: cx_def src_Next_def)
  have b: "tf [1] [1] = (0, Some (Error ''bad key''))" by (simp add: tf_def)
  have c: "kv_Next (BaseKV cerr) = (([], [], Some (Error ''io'')), snd (kv_Next (BaseKV cerr)))"
    by (simp add: cerr_def src_Next_def)
  note t = transform_failure_returned_once [where it = "BaseKV cx" and k = "[1]" and v = "[1]"
      and it' = "snd (kv_Next (BaseKV cx))" and transform = tf and u = 0
      and e = "Error ''bad key''"]
  note t2 = transform_failure_returned_once [where jt = "BaseKV cerr" and k = "[]" and v = "[]"
      and jt' = "snd (kv_Next (BaseKV cerr))" and transform = tf and e = "Error ''io''"]
  have 1: "u64_Next (TransformKV2U64 (BaseKV cx) tf) =
     ((0, Some (Error ''bad key'')), TransformKV2U64 (snd (kv_Next (BaseKV cx))) tf)"
    using t [THEN conjunct1, THEN mp, OF conjI, OF a b] by (rule conjunct1)
  have 3: "u64_Next (TransformKV2U64 (BaseKV cerr) tf) =
     ((0, Some (Error ''io'')), TransformKV2U64 (snd (kv_Next (BaseKV cerr))) tf)"
    using t2 [THEN conjunct2, THEN mp, OF c] .
  have 4: "fst (u64_Next (TransformKV2U64 (snd (kv_Next (BaseKV cx))) tf)) = (7, None)"
    by (simp add: TransformKV2U64_def u64_Next_def cx_def src_Next_def tf_def)
  show ?thesis using 1 3 4 by (intro conjI)
qed

text \<open>
  C8. The claim says that the constructors do not pull their children. They call
  \<^verbatim>\<open>advanceX\<close> and \<^verbatim>\<open>advanceY\<close> (or \<^verbatim>\<open>advance\<close>): after construction each base
  stream has received one \<^verbatim>\<open>HasNext\<close> and one \<^verbatim>\<open>Next\<close>, and its first element sits
  in the lookahead buffer.
\<close>

theorem constructor_pulls_counterexample:
  "UnionKV (Some (BaseKV cx)) (Some (BaseKV cy)) 5 =
     UnionKVIter
       (BaseKV \<lparr>script = [Inr ([2], [2]), Inr ([4], [4])], closer = True,
                hasNextCalls = 1, nextCalls = 1, closeCalls = 0\<rparr>)
       (BaseKV \<lparr>script = [Inr ([3], [30])], closer = False,
                hasNextCalls = 1, nextCalls = 1, closeCalls = 0\<rparr>)
       \<lparr>xHasNext = True, yHasNext = True, xNextK = [1], xNextV = [1],
        yNextK = [2], yNextV = [20], limit = 5, err = None\<rparr>
   \<and> WrapKVS (Some (BaseKV cy)) =
     WrapKVSIter
       (BaseKV \<lparr>script = [Inr ([3], [30])], closer = False,
                hasNextCalls = 1, nextCalls = 1, closeCalls = 0\<rparr>)
       \<lparr>WrapKVSIter_fields.yHasNext = True, WrapKVSIter_fields.yNextK = [2],
        WrapKVSIter_fields.yNextV = [20], WrapKVSIter_fields.err = None\<rparr>"
  by (simp add: UnionKV_def WrapKVS_def UnionKVIter_advanceX_def UnionKVIter_advanceY_def
      WrapKVSIter_advance_def kv_pull.simps UnionKVIter_zero_def WrapKVSIter_zero_def
      cx_def cy_def src_HasNext_def src_Next_def)

text \<open>
  C8, as the code has it: a constructor over present children pulls each child once
  (\<^verbatim>\<open>HasNext\<close>, then \<^verbatim>\<open>Next\<close> when there is an element) to fill the lookahead
  buffers; the second child of \<open>UnionKV\<close> and \<open>MergeKVS\<close> is left alone when the pull on
  the first answered an error. On a base stream the pull is one \<^verbatim>\<open>HasNext\<close> call and,
  unless the script is empty, one \<^verbatim>\<open>Next\<close> call. \<open>UnionKV\<close> with an absent side and
  \<open>MergeKVS\<close> with \<open>y\<close> absent return the present stream untouched; \<open>MergeKVS\<close> with
  \<open>x\<close> absent is \<open>WrapKVS y\<close>, which pulls \<open>y\<close>.
\<close>

theorem constructors_prefetch:
  "(\<exists>m. UnionKV (Some x) (Some y) lim =
      UnionKVIter (snd (kv_pull x))
        (if kv_pull_err (kv_pull x) = None then snd (kv_pull y) else y) m)
   \<and> (\<exists>m. MergeKVS (Some xx) (Some y) lim =
      MergedKV (snd (kvs_pull xx))
        (if kvs_pull_err (kvs_pull xx) = None then snd (kv_pull y) else y) m)
   \<and> (\<exists>m. WrapKVS (Some y) = WrapKVSIter (snd (kv_pull y)) m)
   \<and> (\<exists>m. WrapKV (Some xx) = WrapKVIter (snd (kvs_pull xx)) m)
   \<and> (\<exists>s'. snd (kv_pull (BaseKV s)) = BaseKV s'
        \<and> hasNextCalls s' = Suc (hasNextCalls s)
        \<and> nextCalls s' = (if script s = [] then nextCalls s else Suc (nextCalls s)))
   \<and> (\<exists>s'. snd (kvs_pull (BaseKVS ss)) = BaseKVS s'
        \<and> hasNextCalls s' = Suc (hasNextCalls ss)
        \<and> nextCalls s' = (if script ss = [] then nextCalls ss else Suc (nextCalls ss)))
   \<and> UnionKV (Some x) None lim = x \<and> UnionKV None (Some y) lim = y
   \<and> MergeKVS (Some xx) None lim = xx \<and> MergeKVS None (Some y) lim = WrapKVS (Some y)"
proof -
  have d: "UnionKV (Some x) None lim = x" "UnionKV None (Some y) lim = y"
     "MergeKVS (Some xx) None lim = xx" "MergeKVS None (Some y) lim = WrapKVS (Some y)"
    by (simp_all add: UnionKV_def MergeKVS_def)
  show ?thesis
    by (intro conjI UnionKV_children MergeKVS_children WrapKVS_child WrapKV_child
          kv_pull_base_calls kvs_pull_base_calls d)
qed

text \<open>The theorem at the streams of the scenario.\<close>

theorem constructors_prefetch_witness:
  "(\<exists>m. UnionKV (Some (BaseKV cx)) (Some (BaseKV cy)) 5 =
      UnionKVIter (snd (kv_pull (BaseKV cx))) (snd (kv_pull (BaseKV cy))) m)
   \<and> (\<exists>s'. snd (kv_pull (BaseKV cx)) = BaseKV s' \<and> hasNextCalls s' = 1 \<and> nextCalls s' = 1)"
proof -
  have e: "kv_pull_err (kv_pull (BaseKV cx)) = None"
    by (simp add: kv_pull.simps kv_pull_err_def cx_def src_HasNext_def src_Next_def)
  have c: "hasNextCalls cx = 0" "nextCalls cx = 0" "script cx \<noteq> []" by (simp_all add: cx_def)
  note t = constructors_prefetch [where x = "BaseKV cx" and y = "BaseKV cy" and lim = 5 and s = cx]
  have 1: "\<exists>m. UnionKV (Some (BaseKV cx)) (Some (BaseKV cy)) 5 =
      UnionKVIter (snd (kv_pull (BaseKV cx)))
        (if kv_pull_err (kv_pull (BaseKV cx)) = None then snd (kv_pull (BaseKV cy)) else BaseKV cy) m"
    by (rule t [THEN conjunct1])
  have 2: "\<exists>s'. snd (kv_pull (BaseKV cx)) = BaseKV s'
        \<and> hasNextCalls s' = Suc (hasNextCalls cx)
        \<and> nextCalls s' = (if script cx = [] then nextCalls cx else Suc (nextCalls cx))"
    by (rule t [THEN conjunct2, THEN conjunct2, THEN conjunct2, THEN conjunct2, THEN conjunct1])
  show ?thesis using 1 2 by (simp add: e c)
qed

text \<open>
  C9. \<^verbatim>\<open>Close\<close> on a stream of iter\_exact.go forwards \<^verbatim>\<open>Close\<close> to each child, and so
  on down a composition of any depth: every base stream under it that has a \<^verbatim>\<open>Close\<close>
  method receives exactly one more call, and a base stream without one is left as it is.
  (A composition is a tree: each stream has one owner.)
\<close>

theorem Close_forwarding:
  "kv_bases (kv_Close t) = closed_once (kv_bases t)
   \<and> kvs_bases (kvs_Close u) = closed_once (kvs_bases u)
   \<and> u64_bases (u64_Close w) = closed_once (u64_bases w)
   \<and> kv_Close (UnionKVIter x y m) = UnionKVIter (kv_Close x) (kv_Close y) m
   \<and> kvs_Close (MergedKV xx y mm) = MergedKV (kvs_Close xx) (kv_Close y) mm
   \<and> kvs_Close (WrapKVSIter y ws) = WrapKVSIter (kv_Close y) ws
   \<and> kv_Close (WrapKVIter xx wk) = WrapKVIter (kvs_Close xx) wk
   \<and> u64_Close (TransformKV2U64Iter x f) = TransformKV2U64Iter (kv_Close x) f
   \<and> kv_Close (BaseKV s) = BaseKV (if closer s then s\<lparr>closeCalls := Suc (closeCalls s)\<rparr> else s)"
proof -
  obtain it g where w: "w = TransformKV2U64Iter it g" by (cases w)
  have "u64_bases (u64_Close w) = kv_bases (kv_Close it)"
    by (simp add: w u64_bases_def u64_Close_def)
  also have "\<dots> = closed_once (kv_bases it)" by (rule bases_Close)
  finally have 1: "u64_bases (u64_Close w) = closed_once (u64_bases w)"
    by (simp add: w u64_bases_def)
  have 2: "u64_Close (TransformKV2U64Iter x f) = TransformKV2U64Iter (kv_Close x) f"
    by (simp add: u64_Close_def)
  have 3: "kv_Close (BaseKV s) = BaseKV (if closer s then s\<lparr>closeCalls := Suc (closeCalls s)\<rparr> else s)"
    by (simp add: src_Close_def)
  show ?thesis
    using bases_Close(1) [of t] bases_Close(2) [of u] 1 2 3 by simp
qed

text \<open>
  The theorem at the three-level composition
  \<open>UnionKV (WrapKV (WrapKVS x)) (WrapKV (MergeKVS xs y))\<close>, where \<open>y\<close> has no
  \<^verbatim>\<open>Close\<close> method.
\<close>

theorem Close_forwarding_witness:
  "kv_bases (UnionKV (Some (WrapKV (Some (WrapKVS (Some (BaseKV cx))))))
               (Some (WrapKV (Some (MergeKVS (Some (BaseKVS cxs)) (Some (BaseKV cy)) (- 1))))) (- 1))
     = [(True, 0), (True, 0), (False, 0)]
   \<and> kv_bases (kv_Close
        (UnionKV (Some (WrapKV (Some (WrapKVS (Some (BaseKV cx))))))
               (Some (WrapKV (Some (MergeKVS (Some (BaseKVS cxs)) (Some (BaseKV cy)) (- 1))))) (- 1)))
     = [(True, 1), (True, 1), (False, 0)]"
proof -
  let ?t = "UnionKV (Some (WrapKV (Some (WrapKVS (Some (BaseKV cx))))))
               (Some (WrapKV (Some (MergeKVS (Some (BaseKVS cxs)) (Some (BaseKV cy)) (- 1))))) (- 1)"
  have b: "kv_bases ?t = [(True, 0), (True, 0), (False, 0)]"
    by code_simp
  have "kv_bases (kv_Close ?t) = closed_once (kv_bases ?t)"
    by (rule Close_forwarding [THEN conjunct1])
  then show ?thesis unfolding b by (simp add: closed_once_def)
qed

text \<open>
  C10. The claim says that a negative limit stays negative for ever and never disables the
  stream. \<^verbatim>\<open>m.limit--\<close> wraps: from the limit \<open>- 2 ^ 63\<close> the \<open>2 ^ 63\<close>-th \<^verbatim>\<open>Next\<close>
  brings the limit to zero, and \<^verbatim>\<open>HasNext\<close> is false although \<open>x\<close> still has a buffered
  element.
\<close>

theorem negative_limit_counterexample:
  "\<not> fst (kv_HasNext (((\<lambda>s. snd (kv_Next s)) ^^ (2 ^ 63))
        (UnionKV (Some (BaseKV long_x)) (Some (BaseKV empty_y)) (- (2 ^ 63))))) \<and>
   kv_pending (((\<lambda>s. snd (kv_Next s)) ^^ (2 ^ 63))
        (UnionKV (Some (BaseKV long_x)) (Some (BaseKV empty_y)) (- (2 ^ 63))))"
proof -
  define xs :: "(bytes \<times> bytes) list" where "xs = map (\<lambda>i. (replicate i 0, [])) [0..<2 ^ 63 + 1]"
  have sx: "script long_x = map Inr xs" by (simp add: long_x_def xs_def)
  have sy: "script empty_y = map Inr []" by (simp add: empty_y_def)
  from UnionKV_base_state [OF sx sy, of "- (2 ^ 63)"] obtain sx' sy' m where c:
    "UnionKV (Some (BaseKV long_x)) (Some (BaseKV empty_y)) (- (2 ^ 63))
      = UnionKVIter (BaseKV sx') (BaseKV sy') m"
    and h: "holds (xHasNext m) (xNextK m, xNextV m) sx' xs"
      "holds (yHasNext m) (yNextK m, yNextV m) sy' []" "err m = None"
    and l: "limit m = - (2 ^ 63)" by blast
  have len: "length xs = 2 ^ 63 + 1" by (simp add: xs_def)
  have n: "2 ^ 63 \<le> length (union_list xs [])" by (simp add: len)
  from union_iter_base [OF h n] obtain sx2 sy2 m3 X' Y' where r:
    "((\<lambda>s. snd (kv_Next s)) ^^ (2 ^ 63)) (UnionKVIter (BaseKV sx') (BaseKV sy') m) =
        UnionKVIter (BaseKV sx2) (BaseKV sy2) m3"
    "holds (xHasNext m3) (xNextK m3, xNextV m3) sx2 X'"
    "holds (yHasNext m3) (yNextK m3, yNextV m3) sy2 Y'"
    "err m3 = None" "limit m3 = limit m - of_nat (2 ^ 63)"
    "union_list X' Y' = drop (2 ^ 63) (union_list xs [])" by blast
  have "limit m3 = - (2 ^ 63) - of_nat (2 ^ 63)" using r(5) l by simp
  also have "\<dots> = 0" by (simp only: of_nat_power of_nat_numeral) simp
  finally have l0: "limit m3 = 0" .
  have "length (drop (2 ^ 63) (union_list xs [])) = 1" by (simp add: len)
  then have "union_list X' Y' \<noteq> []" using r(6) by auto
  then have "X' \<noteq> [] \<or> Y' \<noteq> []" by auto
  then have p: "xHasNext m3 \<or> yHasNext m3"
    using holds_nonempty [OF r(2)] holds_nonempty [OF r(3)] by simp
  show ?thesis
    unfolding c r(1) using l0 r(4) p by (simp add: UnionKVIter_HasNext_def)
qed

text \<open>
  C10, as the code has it: after a negative limit at construction and fewer than
  \<open>2 ^ 63\<close> calls of \<^verbatim>\<open>Next\<close>, the limit is not zero, so \<^verbatim>\<open>HasNext\<close> of a union or
  merge is true exactly when some side has a buffered element or an error is pending.
\<close>

theorem negative_limit_below_2_63:
  assumes "sint lim < 0" and "n < 2 ^ 63"
  shows "(fst (kv_HasNext (((\<lambda>s. snd (kv_Next s)) ^^ n) (UnionKV (Some x) (Some y) lim)))
            \<longleftrightarrow> kv_pending (((\<lambda>s. snd (kv_Next s)) ^^ n) (UnionKV (Some x) (Some y) lim)))
       \<and> (fst (kvs_HasNext (((\<lambda>s. snd (kvs_Next s)) ^^ n) (MergeKVS (Some xx) (Some y) lim)))
            \<longleftrightarrow> kvs_pending (((\<lambda>s. snd (kvs_Next s)) ^^ n) (MergeKVS (Some xx) (Some y) lim)))"
proof
  obtain x0 y0 m0 where c: "UnionKV (Some x) (Some y) lim = UnionKVIter x0 y0 m0" "limit m0 = lim"
    using UnionKV_limit [of x y lim] by blast
  obtain x' y' m' j where s:
    "((\<lambda>s. snd (kv_Next s)) ^^ n) (UnionKVIter x0 y0 m0) = UnionKVIter x' y' m'"
    "j \<le> n" "limit m' = limit m0 - of_nat j"
    using union_iter_limit [of n x0 y0 m0] by blast
  have "j < 2 ^ 63" using s(2) assms(2) by (rule le_less_trans)
  then have "limit m' \<noteq> 0"
    using negative_minus_nat_nonzero [OF assms(1)] s(3) c(2) by simp
  then show "fst (kv_HasNext (((\<lambda>s. snd (kv_Next s)) ^^ n) (UnionKV (Some x) (Some y) lim)))
            \<longleftrightarrow> kv_pending (((\<lambda>s. snd (kv_Next s)) ^^ n) (UnionKV (Some x) (Some y) lim))"
    unfolding c(1) s(1) by (simp add: UnionKVIter_HasNext_def)
next
  obtain x0 y0 m0 where c: "MergeKVS (Some xx) (Some y) lim = MergedKV x0 y0 m0" "limit m0 = lim"
    using MergeKVS_limit [of xx y lim] by blast
  obtain x' y' m' j where s:
    "((\<lambda>s. snd (kvs_Next s)) ^^ n) (MergedKV x0 y0 m0) = MergedKV x' y' m'"
    "j \<le> n" "limit m' = limit m0 - of_nat j"
    using merged_iter_limit [of n x0 y0 m0] by blast
  have "j < 2 ^ 63" using s(2) assms(2) by (rule le_less_trans)
  then have "limit m' \<noteq> 0"
    using negative_minus_nat_nonzero [OF assms(1)] s(3) c(2) by simp
  then show "fst (kvs_HasNext (((\<lambda>s. snd (kvs_Next s)) ^^ n) (MergeKVS (Some xx) (Some y) lim)))
            \<longleftrightarrow> kvs_pending (((\<lambda>s. snd (kvs_Next s)) ^^ n) (MergeKVS (Some xx) (Some y) lim))"
    unfolding c(1) s(1) by (simp add: MergedKV_HasNext_def)
qed

text \<open>The theorem at the streams of the scenario, with limit \<open>- 1\<close>, after four pulls.\<close>

theorem negative_limit_below_2_63_witness:
  "sint (- 1 :: go_int) < 0 \<and> (4 :: nat) < 2 ^ 63
   \<and> (fst (kv_HasNext (((\<lambda>s. snd (kv_Next s)) ^^ 4)
          (UnionKV (Some (BaseKV cx)) (Some (BaseKV cy)) (- 1))))
        = kv_pending (((\<lambda>s. snd (kv_Next s)) ^^ 4)
          (UnionKV (Some (BaseKV cx)) (Some (BaseKV cy)) (- 1))))
   \<and> (fst (kvs_HasNext (((\<lambda>s. snd (kvs_Next s)) ^^ 4)
          (MergeKVS (Some (BaseKVS cxs)) (Some (BaseKV cy)) (- 1))))
        = kvs_pending (((\<lambda>s. snd (kvs_Next s)) ^^ 4)
          (MergeKVS (Some (BaseKVS cxs)) (Some (BaseKV cy)) (- 1))))
   \<and> \<not> kv_pending (((\<lambda>s. snd (kv_Next s)) ^^ 4)
          (UnionKV (Some (BaseKV cx)) (Some (BaseKV cy)) (- 1)))
   \<and> kvs_pending (((\<lambda>s. snd (kvs_Next s)) ^^ 4)
          (MergeKVS (Some (BaseKVS cxs)) (Some (BaseKV cy)) (- 1)))"
proof -
  have h: "sint (- 1 :: go_int) < 0" "(4 :: nat) < 2 ^ 63" by simp_all
  have p: "\<not> kv_pending (((\<lambda>s. snd (kv_Next s)) ^^ 4)
          (UnionKV (Some (BaseKV cx)) (Some (BaseKV cy)) (- 1)))"
    "kvs_pending (((\<lambda>s. snd (kvs_Next s)) ^^ 4)
          (MergeKVS (Some (BaseKVS cxs)) (Some (BaseKV cy)) (- 1)))"
    by code_simp+
  from negative_limit_below_2_63 [OF h, of "BaseKV cx" "BaseKV cy" "BaseKVS cxs"] h p
  show ?thesis by blast
qed

end
